theory Spec2Isabelle
  imports Main "HOL-Library.Sublist"
begin

section \<open>The nodeunit task runner (src/task_runner.js)\<close>

text \<open>
  The script is embedded function by function. Strings are byte strings (the UTF-8
  encoding of the JavaScript strings); the file system, the console and the exit status
  of the process are explicit. The shell behind \<^verbatim>\<open>execSync\<close> and the minifier
  \<^verbatim>\<open>UglifyJS.minify\<close> are parameters of the model.
\<close>

subsection \<open>String operations of the JavaScript library\<close>

definition newline :: string where
  "newline = [CHR 0x0A]"

text \<open>\<^verbatim>\<open>s.startsWith(p)\<close>.\<close>

definition startsWith :: "string \<Rightarrow> string \<Rightarrow> bool" where
  "startsWith s p = prefix p s"

text \<open>
  Lower case on ASCII: a string of ASCII characters only (every byte below 128), and such
  a string with its letters A to Z lowered and every other character kept.
\<close>

definition isAscii :: "string \<Rightarrow> bool" where
  "isAscii s = list_all (\<lambda>c. (of_char c :: nat) < 128) s"

definition lowerChar :: "char \<Rightarrow> char" where
  "lowerChar c =
     (let n = (of_char c :: nat) in if 65 \<le> n \<and> n \<le> 90 then char_of (n + 32) else c)"

definition asciiLower :: "string \<Rightarrow> string" where
  "asciiLower s = map lowerChar s"

text \<open>\<^verbatim>\<open>s.trim()\<close> on the ASCII white space characters, and \<^verbatim>\<open>s.split('\n')\<close>.\<close>

definition isSpace :: "char \<Rightarrow> bool" where
  "isSpace c = (c \<in> set [CHR 0x20, CHR 0x09, CHR 0x0A, CHR 0x0B, CHR 0x0C, CHR 0x0D])"

definition trim :: "string \<Rightarrow> string" where
  "trim s = rev (dropWhile isSpace (rev (dropWhile isSpace s)))"

fun splitLines :: "string \<Rightarrow> string list" where
  "splitLines [] = [[]]"
| "splitLines (c # cs) =
     (if c = CHR 0x0A then [] # splitLines cs
      else (case splitLines cs of [] \<Rightarrow> [[c]] | l # ls \<Rightarrow> (c # l) # ls))"

subsection \<open>Marker removal: the regular expression of \<^verbatim>\<open>buildAndClean\<close>\<close>

text \<open>
  \<^verbatim>\<open>line.replace(/[-\/\\^$*+?.()|[\]{}]/g, '\\$&')\<close>: a backslash is put before each
  character of the class.
\<close>

definition regexpSpecials :: "char list" where
  "regexpSpecials = ''-/'' @ [CHR 0x5C] @ ''^$*+?.()|[]{}''"

fun escapeRegExp :: "string \<Rightarrow> string" where
  "escapeRegExp [] = []"
| "escapeRegExp (c # cs) =
     (if c \<in> set regexpSpecials then CHR 0x5C # c # escapeRegExp cs
      else c # escapeRegExp cs)"

text \<open>
  \<^verbatim>\<open>new RegExp(source, 'g')\<close> for the sources that \<open>escapeRegExp\<close> produces: every
  syntax character is preceded by a backslash there, so the pattern is a sequence of atoms
  that match one character each; \<^verbatim>\<open>\c\<close> matches \<open>c\<close> and any other character
  matches itself. \<open>regexpAtoms\<close> gives the characters to match, in order.
\<close>

fun regexpAtoms :: "string \<Rightarrow> string" where
  "regexpAtoms [] = []"
| "regexpAtoms [c] = [c]"
| "regexpAtoms (c # d # cs) =
     (if c = CHR 0x5C then d # regexpAtoms cs else c # regexpAtoms (d # cs))"

text \<open>
  \<^verbatim>\<open>content.replace(re, '')\<close> for a global expression that matches the characters
  \<open>p\<close> literally: the text is scanned from the left; where \<open>p\<close> matches it is dropped and
  the scan goes on behind the match, otherwise one character is kept. The empty pattern
  matches the empty string everywhere, and replacing it by the empty string keeps the text.
\<close>

function replaceAll :: "string \<Rightarrow> string \<Rightarrow> string" where
  "replaceAll p [] = []"
| "replaceAll p (c # cs) =
     (if p \<noteq> [] \<and> prefix p (c # cs) then replaceAll p (drop (length p) (c # cs))
      else c # replaceAll p cs)"
  by pat_completeness auto
termination
  by (relation "measure (\<lambda>(p, s). length s)") auto

text \<open>One round of the \<^verbatim>\<open>replacements.forEach\<close> loop, and the loop.\<close>

definition removeMarker :: "string \<Rightarrow> string \<Rightarrow> string" where
  "removeMarker line content = replaceAll (regexpAtoms (escapeRegExp line)) content"

definition removeMarkers :: "string list \<Rightarrow> string \<Rightarrow> string" where
  "removeMarkers replacements content = foldl (\<lambda>c line. removeMarker line c) content replacements"

subsection \<open>The process: file system, console, exceptions\<close>

text \<open>
  A path names a file with its text, a directory, or nothing. Paths are the strings the
  script passes; file modes are not modelled.
\<close>

datatype node = File string | Dir

type_synonym fsys = "string \<Rightarrow> node option"

datatype stream = Stdout | Stderr

type_synonym line = "stream \<times> string"

text \<open>
  A JavaScript error object with its \<^verbatim>\<open>message\<close> and \<^verbatim>\<open>stderr\<close> properties (an absent
  \<^verbatim>\<open>stderr\<close> is the empty string: both are falsy). \<^verbatim>\<open>process.exit(n)\<close> ends the
  process and is caught by no handler.
\<close>

datatype jserror = Error (message: string) (stderr: string)

datatype exn = Thrown jserror | Exit nat

datatype jsval = Undefined | Str string

text \<open>
  A statement runs on a file system and gives the file system it leaves, the lines it
  printed and either the exception that ended it or its value.
\<close>

type_synonym 'a task = "fsys \<Rightarrow> fsys \<times> line list \<times> (exn + 'a)"

definition returnT :: "'a \<Rightarrow> 'a task" where
  "returnT x = (\<lambda>fs. (fs, [], Inr x))"

definition throwT :: "exn \<Rightarrow> 'a task" where
  "throwT e = (\<lambda>fs. (fs, [], Inl e))"

definition bindT :: "'a task \<Rightarrow> ('a \<Rightarrow> 'b task) \<Rightarrow> 'b task" where
  "bindT m f = (\<lambda>fs.
     case m fs of
       (fs1, l1, Inl e) \<Rightarrow> (fs1, l1, Inl e)
     | (fs1, l1, Inr x) \<Rightarrow> (case f x fs1 of (fs2, l2, r) \<Rightarrow> (fs2, l1 @ l2, r)))"

text \<open>Statements in sequence; \<^verbatim>\<open>if (c) { ... }\<close>; \<^verbatim>\<open>xs.forEach(f)\<close>; a call whose value is dropped.\<close>

fun seqT :: "unit task list \<Rightarrow> unit task" where
  "seqT [] = returnT ()"
| "seqT (t # ts) = bindT t (\<lambda>_. seqT ts)"

definition whenT :: "bool \<Rightarrow> unit task \<Rightarrow> unit task" where
  "whenT c t = (if c then t else returnT ())"

fun forEachT :: "'a list \<Rightarrow> ('a \<Rightarrow> unit task) \<Rightarrow> unit task" where
  "forEachT [] f = returnT ()"
| "forEachT (x # xs) f = bindT (f x) (\<lambda>_. forEachT xs f)"

definition ignoreT :: "'a task \<Rightarrow> unit task" where
  "ignoreT m = bindT m (\<lambda>_. returnT ())"

text \<open>\<^verbatim>\<open>try { m } catch (e) { h e }\<close>.\<close>

definition tryCatch :: "unit task \<Rightarrow> (jserror \<Rightarrow> unit task) \<Rightarrow> unit task" where
  "tryCatch m h = (\<lambda>fs.
     case m fs of
       (fs1, l1, Inl (Thrown e)) \<Rightarrow> (case h e fs1 of (fs2, l2, r) \<Rightarrow> (fs2, l1 @ l2, r))
     | (fs1, l1, r) \<Rightarrow> (fs1, l1, r))"

definition console_log :: "string \<Rightarrow> unit task" where
  "console_log s = (\<lambda>fs. (fs, [(Stdout, s)], Inr ()))"

definition console_error :: "string \<Rightarrow> unit task" where
  "console_error s = (\<lambda>fs. (fs, [(Stderr, s)], Inr ()))"

definition process_exit :: "nat \<Rightarrow> unit task" where
  "process_exit n = throwT (Exit n)"

subsection \<open>The \<^verbatim>\<open>fs\<close> and \<^verbatim>\<open>path\<close> modules\<close>

text \<open>
  The message of a file system error is shortened to its code, the call and the path.
\<close>

definition fsError :: "string \<Rightarrow> string \<Rightarrow> string \<Rightarrow> exn" where
  "fsError code call p = Thrown (Error (code @ '': '' @ call @ '' '' @ p) [])"

definition dirname :: "string \<Rightarrow> string" where
  "dirname p =
     (if CHR ''/'' \<in> set p then rev (tl (dropWhile (\<lambda>c. c \<noteq> CHR ''/'') (rev p))) else ''.'')"

definition parentIsDir :: "fsys \<Rightarrow> string \<Rightarrow> bool" where
  "parentIsDir fs p = (dirname p = ''.'' \<or> fs (dirname p) = Some Dir)"

text \<open>The path itself and the directories above it, outermost first.\<close>

definition ancestors :: "string \<Rightarrow> string list" where
  "ancestors p = map (\<lambda>i. take i p) (filter (\<lambda>i. p ! i = CHR ''/'') [1..<length p]) @ [p]"

definition join :: "string \<Rightarrow> string \<Rightarrow> string" where
  "join a b = a @ ''/'' @ b"

definition basename :: "string \<Rightarrow> string \<Rightarrow> string" where
  "basename p ext =
     (let b = rev (takeWhile (\<lambda>c. c \<noteq> CHR ''/'') (rev p))
      in if suffix ext b \<and> b \<noteq> ext then take (length b - length ext) b else b)"

definition existsSync :: "string \<Rightarrow> bool task" where
  "existsSync p = (\<lambda>fs. (fs, [], Inr (fs p \<noteq> None)))"

definition readFileSync :: "string \<Rightarrow> string task" where
  "readFileSync p = (\<lambda>fs.
     case fs p of
       Some (File text) \<Rightarrow> (fs, [], Inr text)
     | Some Dir \<Rightarrow> (fs, [], Inl (fsError ''EISDIR'' ''read'' p))
     | None \<Rightarrow> (fs, [], Inl (fsError ''ENOENT'' ''open'' p)))"

definition writeFileSync :: "string \<Rightarrow> string \<Rightarrow> unit task" where
  "writeFileSync p text = (\<lambda>fs.
     if fs p = Some Dir then (fs, [], Inl (fsError ''EISDIR'' ''open'' p))
     else if \<not> parentIsDir fs p then (fs, [], Inl (fsError ''ENOENT'' ''open'' p))
     else (fs(p \<mapsto> File text), [], Inr ()))"

definition mkdirSync :: "string \<Rightarrow> unit task" where
  "mkdirSync p = (\<lambda>fs.
     if fs p \<noteq> None then (fs, [], Inl (fsError ''EEXIST'' ''mkdir'' p))
     else if \<not> parentIsDir fs p then (fs, [], Inl (fsError ''ENOENT'' ''mkdir'' p))
     else (fs(p \<mapsto> Dir), [], Inr ()))"

definition isFile :: "node option \<Rightarrow> bool" where
  "isFile n = (case n of Some (File text) \<Rightarrow> True | _ \<Rightarrow> False)"

text \<open>\<^verbatim>\<open>fs.mkdirSync(p, { recursive: true })\<close>.\<close>

definition mkdirSyncRecursive :: "string \<Rightarrow> unit task" where
  "mkdirSyncRecursive p = (\<lambda>fs.
     if \<exists>a \<in> set (ancestors p). isFile (fs a)
     then (fs, [], Inl (fsError ''EEXIST'' ''mkdir'' p))
     else ((\<lambda>q. if q \<in> set (ancestors p) then Some Dir else fs q), [], Inr ()))"

text \<open>\<^verbatim>\<open>fs.rmSync(p, { recursive: true, force: true })\<close>.\<close>

definition rmSync :: "string \<Rightarrow> unit task" where
  "rmSync p = (\<lambda>fs. ((\<lambda>q. if q = p \<or> prefix (p @ ''/'') q then None else fs q), [], Inr ()))"

definition unlinkSync :: "string \<Rightarrow> unit task" where
  "unlinkSync p = (\<lambda>fs.
     case fs p of
       Some (File text) \<Rightarrow> (fs(p := None), [], Inr ())
     | Some Dir \<Rightarrow> (fs, [], Inl (fsError ''EPERM'' ''unlink'' p))
     | None \<Rightarrow> (fs, [], Inl (fsError ''ENOENT'' ''unlink'' p)))"

definition copyFileSync :: "string \<Rightarrow> string \<Rightarrow> unit task" where
  "copyFileSync src dest = (\<lambda>fs.
     case fs src of
       Some (File text) \<Rightarrow>
         (if fs dest = Some Dir then (fs, [], Inl (fsError ''EISDIR'' ''copyfile'' dest))
          else if \<not> parentIsDir fs dest then (fs, [], Inl (fsError ''ENOENT'' ''copyfile'' dest))
          else (fs(dest \<mapsto> File text), [], Inr ()))
     | Some Dir \<Rightarrow> (fs, [], Inl (fsError ''EISDIR'' ''copyfile'' src))
     | None \<Rightarrow> (fs, [], Inl (fsError ''ENOENT'' ''copyfile'' src)))"

subsection \<open>The collaborators outside the script\<close>

text \<open>
  \<^verbatim>\<open>execSync\<close> runs a shell command on the file system: it returns the standard output
  (\<open>Inr\<close>) or throws an error that carries the standard error text (\<open>Inl\<close>).
  \<^verbatim>\<open>UglifyJS.minify\<close> throws, returns an object with \<^verbatim>\<open>error\<close> set, or returns the code.
  \<open>unicodeLower\<close> is the lower-casing of the JavaScript runtime on the strings that are not
  ASCII: it follows the Unicode tables of the runtime, which are no part of the script.
\<close>

datatype minified = MinifyThrows string | MinifyError string | MinifyCode string

record env =
  execSync :: "string \<Rightarrow> fsys \<Rightarrow> fsys \<times> (string + string)"
  minify :: "string \<Rightarrow> minified"
  unicodeLower :: "string \<Rightarrow> string"

text \<open>
  \<^verbatim>\<open>s.toLowerCase()\<close>: on an ASCII string the letters A to Z are lowered and nothing else
  changes; on every other string the result is the runtime's.
\<close>

definition toLowerCase :: "env \<Rightarrow> string \<Rightarrow> string" where
  "toLowerCase env s = (if isAscii s then asciiLower s else unicodeLower env s)"


subsection \<open>Constants of the script\<close>

definition BUILDDIR :: string where "BUILDDIR = ''dist''"
definition PREFIX :: string where "PREFIX = ''/usr/local''"
definition BINDIR :: string where "BINDIR = PREFIX @ ''/bin''"
definition MANDIR :: string where "MANDIR = PREFIX @ ''/share/man''"
definition LIBDIR :: string where "LIBDIR = PREFIX @ ''/lib''"
definition PACKAGE :: string where "PACKAGE = ''nodeunit''"

text \<open>The pictographs of the log lines: the bytes of their UTF-8 encoding.\<close>

definition cross_mark :: string where "cross_mark = [CHR 0xE2, CHR 0x9D, CHR 0x8C]"
definition check_mark :: string where "check_mark = [CHR 0xE2, CHR 0x9C, CHR 0x85]"
definition broom :: string where "broom = [CHR 0xF0, CHR 0x9F, CHR 0xA7, CHR 0xB9]"
definition package_box :: string where "package_box = [CHR 0xF0, CHR 0x9F, CHR 0x93, CHR 0xA6]"
definition globe :: string where "globe = [CHR 0xF0, CHR 0x9F, CHR 0x8C, CHR 0x90]"
definition puzzle_piece :: string where "puzzle_piece = [CHR 0xF0, CHR 0x9F, CHR 0xA7, CHR 0xA9]"
definition test_tube :: string where "test_tube = [CHR 0xF0, CHR 0x9F, CHR 0xA7, CHR 0xAA]"
definition magnifier :: string where "magnifier = [CHR 0xF0, CHR 0x9F, CHR 0x94, CHR 0x8D]"
definition open_book :: string where "open_book = [CHR 0xF0, CHR 0x9F, CHR 0x93, CHR 0x96]"
definition down_arrow :: string where
  "down_arrow = [CHR 0xE2, CHR 0xAC, CHR 0x87, CHR 0xEF, CHR 0xB8, CHR 0x8F]"
definition up_arrow :: string where
  "up_arrow = [CHR 0xE2, CHR 0xAC, CHR 0x86, CHR 0xEF, CHR 0xB8, CHR 0x8F]"

definition apostrophe :: string where "apostrophe = [CHR 0x27]"

subsection \<open>Helper functions (lines 49 to 79)\<close>

definition exec :: "env \<Rightarrow> string \<Rightarrow> string \<Rightarrow> unit task" where
  "exec env command taskName =
     tryCatch
       (seqT
         [console_log (''   -> Executing: '' @ command),
          bindT (\<lambda>fs. case execSync env command fs of
                         (fs', Inr output) \<Rightarrow> (fs', [], Inr output)
                       | (fs', Inl errtext) \<Rightarrow> (fs', [], Inl (Thrown (Error ''Command failed'' errtext))))
            (\<lambda>output. whenT (output \<noteq> [])
               (forEachT (splitLines (trim output)) (\<lambda>l. console_log (''      | '' @ l))))])
       (\<lambda>error. seqT
         [console_error (newline @ cross_mark @ '' ERROR in '' @ taskName @ '': Command failed.''),
          whenT (stderr error \<noteq> [])
            (seqT
              [console_error ''--- Shell Error Output ---'',
               console_error (trim (stderr error)),
               console_error ''--------------------------'']),
          process_exit 1])"

definition setupBuildDir :: "unit task" where
  "setupBuildDir =
     bindT (existsSync BUILDDIR) (\<lambda>found. whenT (\<not> found)
       (seqT
         [console_log (''   -> Creating build directory: '' @ BUILDDIR),
          mkdirSync BUILDDIR]))"

subsection \<open>Core tasks\<close>

definition runClean :: "unit task" where
  "runClean = seqT
     [console_log (newline @ broom @ '' Running CLEAN task...''),
      bindT (existsSync BUILDDIR) (\<lambda>found. whenT found
        (seqT
          [console_log (''   -> Removing build directory: '' @ BUILDDIR),
           rmSync BUILDDIR])),
      bindT (existsSync ''stamp-build'') (\<lambda>found. whenT found
        (seqT
          [console_log ''   -> Removing stamp-build file'',
           unlinkSync ''stamp-build''])),
      console_log (check_mark @ '' Clean complete!'')]"

definition runBuild :: "env \<Rightarrow> unit task" where
  "runBuild env =
     (let targetDir = join BUILDDIR PACKAGE;
          nodejsLibDir = LIBDIR @ ''/node'';
          wrapperScript =
            ''#!/bin/sh'' @ newline @ ''node '' @ nodejsLibDir @ ''/'' @ PACKAGE @ ''/bin/nodeunit $@''
      in seqT
        [console_log (newline @ package_box @ '' Running BUILD task (Node Module)...''),
         setupBuildDir,
         console_log ''   -> Creating dependency marker: stamp-build'',
         writeFileSync ''stamp-build'' [],
         console_log (''   -> Creating module directory: '' @ targetDir),
         mkdirSyncRecursive targetDir,
         console_log ''   -> Copying source files to dist/... (via shell)'',
         exec env (''cp -R bin deps index.js lib package.json share '' @ targetDir) ''Build'',
         console_log ''   -> Creating shell wrapper script: nodeunit.sh'',
         writeFileSync (BUILDDIR @ ''/nodeunit.sh'') wrapperScript,
         console_log (check_mark @ '' Node module build complete!'')])"

subsection \<open>The assembler \<^verbatim>\<open>buildAndClean\<close> (lines 136 to 156)\<close>

text \<open>
  A part is an object with a \<^verbatim>\<open>path\<close> or a \<^verbatim>\<open>content\<close> property; the loop tests each for
  truthiness, so an absent property and the empty string count alike.
\<close>

record part =
  path :: "string option"
  content :: "string option"

definition filePart :: "string \<Rightarrow> part" where
  "filePart p = \<lparr>path = Some p, content = None\<rparr>"

definition contentPart :: "string \<Rightarrow> part" where
  "contentPart c = \<lparr>path = None, content = Some c\<rparr>"

definition truthy :: "string option \<Rightarrow> bool" where
  "truthy v = (case v of None \<Rightarrow> False | Some s \<Rightarrow> s \<noteq> [])"

text \<open>
  The \<^verbatim>\<open>parts.forEach\<close> loop; \<open>buffer\<close> is the variable \<^verbatim>\<open>content\<close> of the function.
\<close>

fun concatParts :: "part list \<Rightarrow> string \<Rightarrow> string task" where
  "concatParts [] buffer = returnT buffer"
| "concatParts (p # parts) buffer =
     (if truthy (path p) then
        bindT (readFileSync (the (path p)))
          (\<lambda>text. concatParts parts (buffer @ text @ newline))
      else if truthy (content p) then
        concatParts parts (buffer @ the (content p) @ newline)
      else concatParts parts (buffer @ newline))"

text \<open>The function has no \<^verbatim>\<open>return\<close> statement: a call evaluates to \<^verbatim>\<open>undefined\<close>.\<close>

definition buildAndClean :: "string \<Rightarrow> part list \<Rightarrow> string list \<Rightarrow> jsval task" where
  "buildAndClean targetFile parts replacements =
     bindT (concatParts parts [])
       (\<lambda>buffer. bindT (writeFileSync targetFile (removeMarkers replacements buffer))
          (\<lambda>_. returnT Undefined))"

subsection \<open>The browser task \<^verbatim>\<open>runBrowser\<close> (lines 162 to 260)\<close>

definition browserDir :: string where
  "browserDir = join BUILDDIR ''browser''"

definition browserTarget :: string where
  "browserTarget = join browserDir ''nodeunit.js''"

definition browserParts :: "part list" where
  "browserParts =
     [filePart ''share/license.js'',
      contentPart ''nodeunit = (function(){'',
      filePart ''deps/json2.js'',
      contentPart ''var assert = this.assert = {};'',
      contentPart ''var types = {};'',
      contentPart ''var core = {};'',
      contentPart ''var nodeunit = {};'',
      contentPart ''var reporter = {};'',
      filePart ''deps/async.js'',
      contentPart ''(function(exports){'',
      filePart ''lib/assert.js'',
      contentPart ''})(assert);'',
      contentPart ''(function(exports){'',
      filePart ''lib/types.js'',
      contentPart ''})(types);'',
      contentPart ''(function(exports){'',
      filePart ''lib/core.js'',
      contentPart ''})(core);'',
      contentPart ''(function(exports){'',
      filePart ''lib/reporters/browser.js'',
      contentPart ''})(reporter);'',
      contentPart ''nodeunit = core;'',
      contentPart ''nodeunit.assert = assert;'',
      contentPart ''nodeunit.reporter = reporter;'',
      contentPart ''nodeunit.run = reporter.run;'',
      contentPart ''return nodeunit; })();'']"

definition browserReplacements :: "string list" where
  "browserReplacements = [''@REMOVE_LINE_FOR_BROWSER'']"

definition testDir :: string where
  "testDir = join browserDir ''test''"

definition testScripts :: "string list" where
  "testScripts =
     [''test-base.js'', ''test-runmodule.js'', ''test-runtest.js'', ''test-testcase.js'',
      ''test-testcase-legacy.js'']"

text \<open>\<^verbatim>\<open>scriptName.replace(/-/g, '_')\<close>.\<close>

definition underscored :: "string \<Rightarrow> string" where
  "underscored name = map (\<lambda>c. if c = CHR ''-'' then CHR ''_'' else c) name"

definition testParts :: "string \<Rightarrow> part list" where
  "testParts script =
     (let scriptName = basename script ''.js''
      in [contentPart ''(function (exports) {'',
          filePart (''test/'' @ script),
          contentPart (''})(this.'' @ underscored scriptName @ '' = {});'')])"

text \<open>
  The statements up to the copy of the style sheet (lines 163 to 214), the minification in
  its \<^verbatim>\<open>try\<close> block (lines 217 to 232), and the statements behind it (lines 235 to 259).
  \<open>callMinify\<close> is the call of the minifier with the \<^verbatim>\<open>throw\<close> of a returned error.
\<close>

definition browserBundleSteps :: "unit task list" where
  "browserBundleSteps =
     [console_log (newline @ globe @ '' Running BROWSER build task...''),
      bindT (existsSync browserDir) (\<lambda>found. whenT found (rmSync browserDir)),
      mkdirSyncRecursive browserDir,
      console_log (''   -> Concatenating library files into '' @ browserTarget @ ''...''),
      ignoreT (buildAndClean browserTarget browserParts browserReplacements),
      console_log ''   -> Copying nodeunit.css'',
      copyFileSync ''share/nodeunit.css'' (join browserDir ''nodeunit.css'')]"

definition callMinify :: "env \<Rightarrow> string \<Rightarrow> string task" where
  "callMinify env code =
     (case minify env code of
        MinifyThrows m \<Rightarrow> throwT (Thrown (Error m []))
      | MinifyError m \<Rightarrow> throwT (Thrown (Error m []))
      | MinifyCode c \<Rightarrow> returnT c)"

definition minifyBundle :: "env \<Rightarrow> unit task" where
  "minifyBundle env = seqT
     [console_log ''   -> Minifying browser bundle using UglifyJS module...'',
      tryCatch
        (bindT (readFileSync browserTarget) (\<lambda>unminifiedCode.
           bindT (callMinify env unminifiedCode) (\<lambda>code. seqT
             [writeFileSync (join browserDir ''nodeunit.min.js'') code,
              console_log ''      | Minification successful.''])))
        (\<lambda>e. console_error
           (newline @ cross_mark @ '' ERROR during UglifyJS minification: '' @ message e))]"

definition browserTestSteps :: "unit task list" where
  "browserTestSteps =
     [mkdirSyncRecursive testDir,
      copyFileSync ''test/test.html'' (join testDir ''test.html''),
      forEachT testScripts (\<lambda>script.
        ignoreT (buildAndClean (join testDir script) (testParts script) browserReplacements)),
      copyFileSync browserTarget (join testDir ''nodeunit.js''),
      copyFileSync (join browserDir ''nodeunit.css'') (join testDir ''nodeunit.css''),
      console_log (check_mark @ '' Browser build complete.'')]"

definition runBrowser :: "env \<Rightarrow> unit task" where
  "runBrowser env = seqT (browserBundleSteps @ [minifyBundle env] @ browserTestSteps)"

subsection \<open>The CommonJS task \<^verbatim>\<open>runCommonJS\<close> (lines 265 to 319)\<close>

definition commonjsDir :: string where
  "commonjsDir = join BUILDDIR ''commonjs''"

definition commonjsParts :: "part list" where
  "commonjsParts =
     [contentPart ''var async = require('async');'',
      contentPart ''var assert = {};'',
      contentPart ''var types = {};'',
      contentPart ''var core = {};'',
      contentPart ''var nodeunit = {};'',
      contentPart ''var reporter = {};'',
      contentPart ''(function(exports){'',
      filePart ''lib/assert.js'',
      contentPart ''})(assert);'',
      contentPart ''(function(exports){'',
      filePart ''lib/types.js'',
      contentPart ''})(types);'',
      contentPart ''(function(exports){'',
      filePart ''lib/core.js'',
      contentPart ''})(core);'',
      contentPart ''module.exports = core;'',
      contentPart ''(function(exports, nodeunit){'',
      filePart ''lib/reporters/browser.js'',
      contentPart ''})(reporter, module.exports);'',
      contentPart ''module.exports.assert = assert;'',
      contentPart ''module.exports.reporter = reporter;'',
      contentPart ''module.exports.run = reporter.run;'']"

definition commonjsReplacements :: "string list" where
  "commonjsReplacements = [''@REMOVE_LINE_FOR_BROWSER'', ''@REMOVE_LINE_FOR_COMMONJS'']"

definition runCommonJS :: "unit task" where
  "runCommonJS =
     (let targetFile = join commonjsDir ''nodeunit.js''
      in seqT
        [console_log (newline @ puzzle_piece @ '' Running COMMONJS build task...''),
         bindT (existsSync commonjsDir) (\<lambda>found. whenT found (rmSync commonjsDir)),
         mkdirSyncRecursive commonjsDir,
         mkdirSyncRecursive (join commonjsDir ''deps''),
         copyFileSync ''deps/json2.js'' (join commonjsDir ''deps/json2.js''),
         copyFileSync ''deps/async.js'' (join commonjsDir ''deps/async.js''),
         console_log (''   -> Concatenating library files into '' @ targetFile @ ''...''),
         ignoreT (buildAndClean targetFile commonjsParts commonjsReplacements),
         console_log (check_mark @ '' CommonJS build complete.'')])"

subsection \<open>The remaining tasks (lines 325 to 400)\<close>

definition runTest :: "env \<Rightarrow> unit task" where
  "runTest env = seqT
     [console_log (newline @ test_tube @ '' Running TEST task...''),
      console_log ''   -> [SKIPPED] Test execution via external binary.'',
      exec env ''node ./bin/nodeunit test'' ''Test'',
      console_log (check_mark @ '' Tests finished.'')]"

definition runLint :: "unit task" where
  "runLint = seqT
     [console_log (newline @ magnifier @ '' Running LINT task...''),
      console_log ''   -> [SKIPPED] Lint execution via external binary (nodelint).'',
      console_log (check_mark @ '' Lint complete.'')]"

definition runDoc :: "unit task" where
  "runDoc = seqT
     [console_log (newline @ open_book @ '' Running DOC task (Man page generation)...''),
      mkdirSyncRecursive ''man1'',
      console_log ''   -> [SKIPPED] Man page generation via external binary (ronn).'',
      console_log (check_mark @ '' Doc generation complete.'')]"

definition runInstall :: "env \<Rightarrow> unit task" where
  "runInstall env =
     (let nodejsLibDir = LIBDIR @ ''/node''
      in seqT
        [console_log (newline @ down_arrow @ '' Running INSTALL task (requires elevated permissions)...''),
         runBuild env,
         exec env (''install -d '' @ nodejsLibDir) ''Install'',
         exec env (''cp -a '' @ BUILDDIR @ ''/'' @ PACKAGE @ '' '' @ nodejsLibDir) ''Install'',
         exec env (''install -m 0755 '' @ BUILDDIR @ ''/nodeunit.sh '' @ BINDIR @ ''/nodeunit'') ''Install'',
         exec env (''install -d '' @ MANDIR @ ''/man1/'') ''Install'',
         exec env (''cp -a man1/nodeunit.1 '' @ MANDIR @ ''/man1/ || true'') ''Install'',
         console_log (check_mark @ '' Install complete. You may need to run this with sudo.'')])"

definition runUninstall :: "env \<Rightarrow> unit task" where
  "runUninstall env =
     (let nodejsLibDir = LIBDIR @ ''/node''
      in seqT
        [console_log (newline @ up_arrow @ '' Running UNINSTALL task (requires elevated permissions)...''),
         exec env (''rm -rf '' @ nodejsLibDir @ ''/nodeunit '' @ nodejsLibDir @ ''/nodeunit.js ''
                   @ BINDIR @ ''/nodeunit'') ''Uninstall'',
         exec env (''rm -rf '' @ MANDIR @ ''/man1/nodeunit.1'') ''Uninstall'',
         console_log (check_mark @ '' Uninstall complete. You may need to run this with sudo.'')])"

subsection \<open>The help menu (lines 407 to 431)\<close>

definition helpLines :: "bool \<Rightarrow> string list" where
  "helpLines showVerbose =
     [newline @ ''================================================='',
      ''       Node.js Task Runner Help Menu (nodeunit)'',
      ''================================================='',
      ''Usage: node task_runner.js <command> [options]'',
      newline @ ''Available Commands (from Makefile):'',
      ''  all        : Runs 'build' and 'doc'.'',
      ''  build      : Copies source files and creates installer script.'',
      ''  browser    : Creates the concatenated browser bundle (.js, .min.js).'',
      ''  commonjs   : Creates the CommonJS browser module bundle.'',
      ''  test       : Runs the unit tests. (Currently skipped)'',
      ''  lint       : Runs static analysis. (Currently skipped)'',
      ''  install    : Copies files to '' @ BINDIR @ '' and '' @ LIBDIR @ ''/node.'',
      ''  uninstall  : Removes installed files.'',
      ''  clean      : Removes the '' @ apostrophe @ BUILDDIR @ apostrophe @ '' directory and stamp files.'',
      ''  doc        : Generates man pages. (Currently skipped)'',
      ''  help (-h)  : Shows this simple help message.'']
     @ (if showVerbose then
          [newline @ ''Available Options (Flags):'',
           ''  -h, --help : Simple help view (use with no command).'',
           ''  -hh        : Verbose help view (use with no command).'']
        else [])
     @ [''================================================='']"

definition showHelp :: "bool \<Rightarrow> unit task" where
  "showHelp showVerbose = forEachT (helpLines showVerbose) console_log"

subsection \<open>Argument parsing and the command switch (lines 24 to 31 and 436 to 493)\<close>

definition primaryCommand :: "env \<Rightarrow> string list \<Rightarrow> string" where
  "primaryCommand env userArgs =
     toLowerCase env
       (case find (\<lambda>arg. \<not> startsWith arg ''-'') userArgs of
          Some arg \<Rightarrow> (if arg \<noteq> [] then arg else [])
        | None \<Rightarrow> [])"

definition options :: "string list \<Rightarrow> string list" where
  "options userArgs = filter (\<lambda>arg. startsWith arg ''-'') userArgs"

definition script :: "env \<Rightarrow> string list \<Rightarrow> unit task" where
  "script env userArgs =
     (let command = primaryCommand env userArgs; opts = options userArgs
      in if ''-h'' \<in> set opts \<or> ''--help'' \<in> set opts then showHelp False
         else if ''-hh'' \<in> set opts then showHelp True
         else if command = [] then
           seqT [console_error (newline @ cross_mark @ '' ERROR: No command provided.''),
                 showHelp False]
         else if command = ''all'' then seqT [runBuild env, runDoc]
         else if command = ''build'' then runBuild env
         else if command = ''browser'' then runBrowser env
         else if command = ''commonjs'' then runCommonJS
         else if command = ''test'' then runTest env
         else if command = ''clean'' then runClean
         else if command = ''lint'' then runLint
         else if command = ''doc'' then runDoc
         else if command = ''install'' then runInstall env
         else if command = ''uninstall'' then runUninstall env
         else
           seqT [console_error
                   (newline @ cross_mark @ '' ERROR: Unknown command: '' @ apostrophe @ command
                    @ apostrophe),
                 showHelp False])"

text \<open>
  The process: a script that runs to its end leaves the exit status 0, \<^verbatim>\<open>process.exit(n)\<close>
  leaves \<open>n\<close>, and an exception that nothing catches is reported on the error stream (here
  by its message) and leaves 1.
\<close>

definition runProcess :: "unit task \<Rightarrow> fsys \<Rightarrow> fsys \<times> line list \<times> nat" where
  "runProcess t fs =
     (case t fs of
        (fs', out, Inr _) \<Rightarrow> (fs', out, 0)
      | (fs', out, Inl (Exit n)) \<Rightarrow> (fs', out, n)
      | (fs', out, Inl (Thrown e)) \<Rightarrow> (fs', out @ [(Stderr, message e)], 1))"

definition main :: "env \<Rightarrow> string list \<Rightarrow> fsys \<Rightarrow> fsys \<times> line list \<times> nat" where
  "main env userArgs = runProcess (script env userArgs)"

subsection \<open>Notions used in the statements\<close>

text \<open>The command words with a case in the switch.\<close>

definition recognizedTargets :: "string list" where
  "recognizedTargets =
     [''all'', ''build'', ''browser'', ''commonjs'', ''test'', ''clean'', ''lint'', ''doc'',
      ''install'', ''uninstall'']"

text \<open>
  A shell in which every command succeeds silently, a minifier that returns its input, a
  runtime that keeps the strings that are not ASCII as they are, and the empty file system:
  a concrete setting to run the script in.
\<close>

definition env0 :: env where
  "env0 = \<lparr>execSync = (\<lambda>command fs. (fs, Inr [])), minify = (\<lambda>code. MinifyCode code),
           unicodeLower = (\<lambda>s. s)\<rparr>"

text \<open>
  A second setting, whose runtime lowers the capital letters of Latin-1 as well: in UTF-8
  these are the byte C3 followed by a byte from 80 to 9E other than 97, and the small
  letter has 20 added to the second byte (C3 89, E with acute, becomes C3 A9).
\<close>

fun lowerLatin1 :: "string \<Rightarrow> string" where
  "lowerLatin1 (c # d # cs) =
     (if c = CHR 0xC3 \<and> 128 \<le> (of_char d :: nat) \<and> (of_char d :: nat) \<le> 158 \<and> d \<noteq> CHR 0x97
      then c # char_of ((of_char d :: nat) + 32) # lowerLatin1 cs
      else lowerChar c # lowerLatin1 (d # cs))"
| "lowerLatin1 cs = map lowerChar cs"

definition envLatin1 :: env where
  "envLatin1 = \<lparr>execSync = (\<lambda>command fs. (fs, Inr [])), minify = (\<lambda>code. MinifyCode code),
                unicodeLower = lowerLatin1\<rparr>"

definition fs0 :: fsys where
  "fs0 = (\<lambda>p. None)"

text \<open>
  The text a part stands for on a file system: the text of the file at its path, its
  literal content, or nothing where the file cannot be read. The loop of \<^verbatim>\<open>buildAndClean\<close>
  tells the two kinds of part apart by the truthiness of \<^verbatim>\<open>path\<close>.
\<close>

definition resolve :: "fsys \<Rightarrow> part \<Rightarrow> string option" where
  "resolve fs p =
     (if truthy (path p) then (case fs (the (path p)) of Some (File text) \<Rightarrow> Some text | _ \<Rightarrow> None)
      else if truthy (content p) then content p
      else Some [])"

text \<open>A file system with the single file \<^verbatim>\<open>lib/a.js\<close>, whose text ends in a newline.\<close>

definition fsA :: fsys where
  "fsA = (\<lambda>p. if p = ''lib/a.js'' then Some (File (''a'' @ newline)) else None)"

text \<open>
  Notions for following one path through a run. A statement keeps a property of the file
  system when it leaves a file system with the property, given one, and does not end the
  process by \<^verbatim>\<open>process.exit\<close>. The property used: \<open>x\<close> is not a readable file, and \<open>T\<close> is
  absent or holds what it held at the start.
\<close>

definition keeps :: "(fsys \<Rightarrow> bool) \<Rightarrow> unit task \<Rightarrow> bool" where
  "keeps I s \<longleftrightarrow> (\<forall>fs. I fs \<longrightarrow> I (fst (s fs)) \<and> (\<forall>n. snd (snd (s fs)) \<noteq> Inl (Exit n)))"

definition unreadableKept :: "string \<Rightarrow> string \<Rightarrow> node option \<Rightarrow> fsys \<Rightarrow> bool" where
  "unreadableKept x T c fs \<longleftrightarrow> \<not> isFile (fs x) \<and> (fs T = None \<or> fs T = c)"

text \<open>The text of a file, and the path of the minified sibling of the browser bundle.\<close>

definition fileText :: "node option \<Rightarrow> string" where
  "fileText n = (case n of Some (File text) \<Rightarrow> text | _ \<Rightarrow> [])"


text \<open>
  A working directory with every input of the browser task, the same without
  \<^verbatim>\<open>lib/core.js\<close>, and a minifier that returns an error for every input.
\<close>

definition fsSources :: fsys where
  "fsSources = (\<lambda>p.
     if p \<in> set [''share/license.js'', ''deps/json2.js'', ''deps/async.js'', ''lib/assert.js'',
                  ''lib/types.js'', ''lib/core.js'', ''lib/reporters/browser.js'',
                  ''share/nodeunit.css'', ''test/test.html'', ''test/test-base.js'',
                  ''test/test-runmodule.js'', ''test/test-runtest.js'', ''test/test-testcase.js'',
                  ''test/test-testcase-legacy.js'']
     then Some (File ''x'') else None)"

definition fsNoCore :: fsys where
  "fsNoCore = fsSources(''lib/core.js'' := None)"


text \<open>
  Occurrences of a marker in a buffer, by position: the marker occurs at \<open>i\<close> when the
  buffer holds it from index \<open>i\<close> on; an index is covered when it lies inside an
  occurrence; \<open>withoutOccurrences\<close> is the buffer with every covered index cut out and
  every other character kept in place. Occurrences are disjoint when no two of them share
  an index, and a marker is unbordered when none of its proper non-empty prefixes is also
  a suffix of it (two occurrences of such a marker never overlap).
\<close>

definition occursAt :: "string \<Rightarrow> string \<Rightarrow> nat \<Rightarrow> bool" where
  "occursAt m s i \<longleftrightarrow> i + length m \<le> length s \<and> take (length m) (drop i s) = m"

definition occurrences :: "string \<Rightarrow> string \<Rightarrow> nat list" where
  "occurrences m s = filter (occursAt m s) [0..<length s]"

definition covered :: "string \<Rightarrow> string \<Rightarrow> nat \<Rightarrow> bool" where
  "covered m s j \<longleftrightarrow> (\<exists>i \<in> set (occurrences m s). i \<le> j \<and> j < i + length m)"

definition withoutOccurrences :: "string \<Rightarrow> string \<Rightarrow> string" where
  "withoutOccurrences m s = map (\<lambda>j. s ! j) (filter (\<lambda>j. \<not> covered m s j) [0..<length s])"

definition disjointOccurrences :: "string \<Rightarrow> string \<Rightarrow> bool" where
  "disjointOccurrences m s \<longleftrightarrow>
     (\<forall>i \<in> set (occurrences m s). \<forall>j \<in> set (occurrences m s). i < j \<longrightarrow> i + length m \<le> j)"

definition unbordered :: "string \<Rightarrow> bool" where
  "unbordered m \<longleftrightarrow> (\<forall>k \<in> set [1..<length m]. take k m \<noteq> drop (length m - k) m)"


text \<open>
  The two markers of the build targets, and the buffers in which every \<^verbatim>\<open>@\<close> begins a
  marker, ends the buffer, or stands before a character other than \<^verbatim>\<open>R\<close> and \<^verbatim>\<open>@\<close>: in
  such a buffer no deletion of one marker can splice an occurrence of the other together.
\<close>

definition markerBrowser :: string where
  "markerBrowser = ''@REMOVE_LINE_FOR_BROWSER''"

definition markerCommonJS :: string where
  "markerCommonJS = ''@REMOVE_LINE_FOR_COMMONJS''"

fun atSignsSettled :: "string \<Rightarrow> bool" where
  "atSignsSettled [] = True"
| "atSignsSettled (c # cs) =
     ((c = CHR ''@'' \<longrightarrow>
         prefix markerBrowser (c # cs) \<or> prefix markerCommonJS (c # cs)
         \<or> cs = [] \<or> (hd cs \<noteq> CHR ''R'' \<and> hd cs \<noteq> CHR ''@''))
      \<and> atSignsSettled cs)"


text \<open>
  With several markers: an index is covered when it lies inside an occurrence of one of
  them, and \<open>withoutOccurrencesOf\<close> is the buffer with these indices cut out.
\<close>

definition coveredBy :: "string list \<Rightarrow> string \<Rightarrow> nat \<Rightarrow> bool" where
  "coveredBy ms s j = list_ex (\<lambda>m. covered m s j) ms"

definition withoutOccurrencesOf :: "string list \<Rightarrow> string \<Rightarrow> string" where
  "withoutOccurrencesOf ms s =
     map (\<lambda>j. s ! j) (filter (\<lambda>j. \<not> coveredBy ms s j) [0..<length s])"

text \<open>
  The concatenated buffer of an assembly plan on a file system: the texts of the parts in
  order, a newline after each (the value of the variable \<^verbatim>\<open>content\<close> of \<^verbatim>\<open>buildAndClean\<close>
  when the \<^verbatim>\<open>parts.forEach\<close> loop has ended).
\<close>

definition concatenated :: "fsys \<Rightarrow> part list \<Rightarrow> string" where
  "concatenated fs parts = concat (map (\<lambda>p. the (resolve fs p) @ newline) parts)"

text \<open>
  Plans of literal parts: one with the browser marker at the end of a line and behind a
  partial match, one with both markers of the CommonJS target, one with a partial match
  only, one with a marker that overlaps itself, and one in which deleting the browser
  marker splices a CommonJS marker together.
\<close>

definition planBrowserMarked :: "part list" where
  "planBrowserMarked = [contentPart ''x = 1; //@REMOVE_LINE_FOR_BROWSER'',
                        contentPart ''@REMOVE_LINE_FOR_@REMOVE_LINE_FOR_BROWSERy'']"

definition planBothMarked :: "part list" where
  "planBothMarked = [contentPart ''a = 1; //@REMOVE_LINE_FOR_COMMONJS'',
                     contentPart ''b = 2; //@REMOVE_LINE_FOR_BROWSER'',
                     contentPart ''REMOVE_LINE_FOR_COMMONJS // @param c'']"

definition planPartial :: "part list" where
  "planPartial = [contentPart ''a @REMOVE_LINE_FOR_ b'', contentPart ''REMOVE_LINE_FOR_BROWSER'']"

definition planOverlap :: "part list" where
  "planOverlap = [contentPart ''aaa'']"

definition planSpliced :: "part list" where
  "planSpliced = [contentPart ''@REMOVE_LINE_FOR_@REMOVE_LINE_FOR_BROWSERCOMMONJS'']"


section \<open>Properties\<close>

subsection \<open>Running the monad\<close>

lemma forEachT_console_log: "forEachT xs console_log fs = (fs, map (Pair Stdout) xs, Inr ())"
  by (induction xs) (simp_all add: returnT_def bindT_def console_log_def)

lemma showHelp_run: "showHelp v fs = (fs, map (Pair Stdout) (helpLines v), Inr ())"
  by (simp add: showHelp_def forEachT_console_log)

lemma usage_run:
  "seqT [console_error m, showHelp False] fs =
     (fs, (Stderr, m) # map (Pair Stdout) (helpLines False), Inr ())"
  by (simp add: bindT_def console_error_def showHelp_run returnT_def)

subsection \<open>The command switch\<close>

lemma options_mem: "a \<in> set (options userArgs) \<longleftrightarrow> a \<in> set userArgs \<and> startsWith a ''-''"
  by (auto simp: options_def)

lemma script_usage:
  assumes "''-h'' \<notin> set userArgs" "''--help'' \<notin> set userArgs" "''-hh'' \<notin> set userArgs"
    and "primaryCommand env userArgs \<notin> set recognizedTargets"
  shows "script env userArgs fs =
           (fs,
            (Stderr,
             if primaryCommand env userArgs = []
             then newline @ cross_mark @ '' ERROR: No command provided.''
             else newline @ cross_mark @ '' ERROR: Unknown command: '' @ apostrophe
                  @ primaryCommand env userArgs @ apostrophe)
            # map (Pair Stdout) (helpLines False), Inr ())"
  using assms unfolding script_def Let_def recognizedTargets_def
  by (simp add: options_mem usage_run del: seqT.simps)

lemma toLowerCase_ascii: "isAscii s \<Longrightarrow> toLowerCase env s = asciiLower s"
  by (simp add: toLowerCase_def)

lemma toLowerCase_empty: "toLowerCase env [] = []"
  by (simp add: toLowerCase_def isAscii_def asciiLower_def)

lemma primaryCommand_frobnicate: "primaryCommand env [''frobnicate''] = ''frobnicate''"
proof -
  have "isAscii ''frobnicate''" "asciiLower ''frobnicate'' = ''frobnicate''"
    by code_simp+
  then show ?thesis
    by (simp add: primaryCommand_def startsWith_def toLowerCase_ascii)
qed

lemma primaryCommand_none: "primaryCommand env [] = []"
  by (simp add: primaryCommand_def toLowerCase_empty)

text \<open>
  C1, as the code has it. Without a help flag (\<^verbatim>\<open>-h\<close>, \<^verbatim>\<open>--help\<close>, \<^verbatim>\<open>-hh\<close>) and with no
  command word, or with a command word whose lower-case form is none of the recognized
  targets, the program prints one error message on the error stream, then the brief help
  text, touches no file, and ends with exit status 0: neither branch of the switch sets an
  exit status.
\<close>

theorem usage_error_exits_normally:
  assumes "''-h'' \<notin> set userArgs" "''--help'' \<notin> set userArgs" "''-hh'' \<notin> set userArgs"
    and "primaryCommand env userArgs \<notin> set recognizedTargets"
  shows "main env userArgs fs =
           (fs,
            (Stderr,
             if primaryCommand env userArgs = []
             then newline @ cross_mark @ '' ERROR: No command provided.''
             else newline @ cross_mark @ '' ERROR: Unknown command: '' @ apostrophe
                  @ primaryCommand env userArgs @ apostrophe)
            # map (Pair Stdout) (helpLines False), 0)"
  by (simp add: main_def runProcess_def script_usage [OF assms])

theorem usage_error_exits_normally_witness:
  "''-h'' \<notin> set [''frobnicate''] \<and> ''--help'' \<notin> set [''frobnicate'']
   \<and> ''-hh'' \<notin> set [''frobnicate'']
   \<and> primaryCommand env0 [''frobnicate''] \<notin> set recognizedTargets
   \<and> main env0 [''frobnicate''] fs0 =
       (fs0,
        (Stderr, newline @ cross_mark @ '' ERROR: Unknown command: '' @ apostrophe
                 @ ''frobnicate'' @ apostrophe)
        # map (Pair Stdout) (helpLines False), 0)"
  using usage_error_exits_normally [of "[''frobnicate'']" env0 fs0]
  by (simp add: primaryCommand_frobnicate recognizedTargets_def)

text \<open>
  C1 as stated fails: for the unknown command \<^verbatim>\<open>frobnicate\<close>, and for no argument at all,
  the exit status is not 1.
\<close>

theorem usage_error_status_counterexample:
  "''frobnicate'' \<notin> set recognizedTargets
   \<and> snd (snd (main env0 [''frobnicate''] fs0)) \<noteq> 1
   \<and> snd (snd (main env0 [] fs0)) \<noteq> 1"
  by (simp add: recognizedTargets_def main_def runProcess_def script_def Let_def options_def
      primaryCommand_frobnicate primaryCommand_none startsWith_def usage_run
      del: seqT.simps)


lemma script_help:
  "''-h'' \<in> set userArgs \<or> ''--help'' \<in> set userArgs \<Longrightarrow>
     script env userArgs fs = (fs, map (Pair Stdout) (helpLines False), Inr ())"
  unfolding script_def Let_def
  by (auto simp: options_mem startsWith_def showHelp_run)

lemma script_verbose_help:
  "''-h'' \<notin> set userArgs \<Longrightarrow> ''--help'' \<notin> set userArgs \<Longrightarrow> ''-hh'' \<in> set userArgs \<Longrightarrow>
     script env userArgs fs = (fs, map (Pair Stdout) (helpLines True), Inr ())"
  unfolding script_def Let_def
  by (simp add: options_mem startsWith_def showHelp_run)

text \<open>
  C9. When the arguments contain \<^verbatim>\<open>-h\<close> or \<^verbatim>\<open>--help\<close>, the program prints the brief help
  text and nothing else, and when they contain neither but \<^verbatim>\<open>-hh\<close>, the verbose help text;
  in both cases no task runs, whatever else the arguments hold and whatever the shell and
  the minifier would do: the file system is left as it was and the exit status is 0.
\<close>

theorem help_flag_runs_no_task:
  "(''-h'' \<in> set userArgs \<or> ''--help'' \<in> set userArgs \<longrightarrow>
      main env userArgs fs = (fs, map (Pair Stdout) (helpLines False), 0))
   \<and> (''-h'' \<notin> set userArgs \<and> ''--help'' \<notin> set userArgs \<and> ''-hh'' \<in> set userArgs \<longrightarrow>
      main env userArgs fs = (fs, map (Pair Stdout) (helpLines True), 0))"
  by (simp add: main_def runProcess_def script_help script_verbose_help)

theorem help_flag_runs_no_task_witness:
  "''-h'' \<in> set [''build'', ''-h'']
   \<and> main env0 [''build'', ''-h''] fs0 = (fs0, map (Pair Stdout) (helpLines False), 0)
   \<and> ''-h'' \<notin> set [''clean'', ''-hh''] \<and> ''--help'' \<notin> set [''clean'', ''-hh'']
   \<and> ''-hh'' \<in> set [''clean'', ''-hh'']
   \<and> main env0 [''clean'', ''-hh''] fs0 = (fs0, map (Pair Stdout) (helpLines True), 0)"
  using help_flag_runs_no_task [of "[''build'', ''-h'']" env0 fs0]
    help_flag_runs_no_task [of "[''clean'', ''-hh'']" env0 fs0]
  by simp

subsection \<open>Lower case\<close>

lemma find_append_list:
  "find P (xs @ ys) = (case find P xs of None \<Rightarrow> find P ys | Some x \<Rightarrow> Some x)"
  by (induction xs) auto

lemma lowerChar_idem: "lowerChar (lowerChar c) = lowerChar c"
  by (auto simp: lowerChar_def Let_def)

lemma asciiLower_idem: "asciiLower (asciiLower w) = asciiLower w"
  by (simp add: asciiLower_def lowerChar_idem)

lemma lowerChar_ascii: "(of_char c :: nat) < 128 \<Longrightarrow> (of_char (lowerChar c) :: nat) < 128"
  by (auto simp: lowerChar_def Let_def of_char_of)

lemma isAscii_asciiLower: "isAscii w \<Longrightarrow> isAscii (asciiLower w)"
  by (induction w) (simp_all add: isAscii_def asciiLower_def lowerChar_ascii)

lemma lowerChar_hyphen: "lowerChar c = CHR ''-'' \<longleftrightarrow> c = CHR ''-''"
proof (cases "65 \<le> (of_char c :: nat) \<and> (of_char c :: nat) \<le> 90")
  case True
  have "char_of (of_char c + 32 :: nat) \<noteq> CHR ''-''"
  proof
    assume "char_of (of_char c + 32 :: nat) = CHR ''-''"
    then have "(of_char (char_of (of_char c + 32 :: nat)) :: nat) = of_char CHR ''-''"
      by simp
    with True show False by (simp add: of_char_of)
  qed
  moreover from True have "c \<noteq> CHR ''-''" by auto
  ultimately show ?thesis using True by (simp add: lowerChar_def Let_def)
next
  case False
  then show ?thesis by (auto simp: lowerChar_def Let_def)
qed

lemma startsWith_asciiLower: "startsWith (asciiLower w) ''-'' \<longleftrightarrow> startsWith w ''-''"
proof (cases w)
  case Nil
  then show ?thesis by (simp add: asciiLower_def)
next
  case (Cons a list)
  have "(CHR ''-'' = lowerChar a) = (CHR ''-'' = a)"
    using lowerChar_hyphen [of a] by auto
  with Cons show ?thesis by (simp add: startsWith_def asciiLower_def)
qed

lemma toLowerCase_ascii_laws:
  assumes "isAscii w"
  shows "startsWith (toLowerCase env w) ''-'' \<longleftrightarrow> startsWith w ''-''"
    and "toLowerCase env (toLowerCase env w) = toLowerCase env w"
  using assms
  by (simp_all add: toLowerCase_ascii isAscii_asciiLower startsWith_asciiLower asciiLower_idem)

lemma options_lower:
  "\<not> startsWith w ''-'' \<Longrightarrow> \<not> startsWith w' ''-'' \<Longrightarrow>
     options (pre @ w' # post) = options (pre @ w # post)"
  by (simp add: options_def)

lemma primaryCommand_found:
  "\<not> startsWith x ''-'' \<Longrightarrow>
     primaryCommand env (pre @ x # post) =
       toLowerCase env
         (case find (\<lambda>arg. \<not> startsWith arg ''-'') pre of None \<Rightarrow> x | Some y \<Rightarrow> y)"
  by (simp add: primaryCommand_def find_append_list split: option.splits)

lemma primaryCommand_lower:
  assumes "\<not> startsWith w ''-''" "\<not> startsWith (toLowerCase env w) ''-''"
    and "toLowerCase env (toLowerCase env w) = toLowerCase env w"
  shows "primaryCommand env (pre @ toLowerCase env w # post) = primaryCommand env (pre @ w # post)"
  using assms by (simp add: primaryCommand_found split: option.splits)

lemma main_lower:
  assumes "\<not> startsWith w ''-''" "\<not> startsWith (toLowerCase env w) ''-''"
    and "toLowerCase env (toLowerCase env w) = toLowerCase env w"
  shows "main env (pre @ w # post) fs = main env (pre @ toLowerCase env w # post) fs"
  by (simp add: main_def script_def options_lower [OF assms(1,2)] primaryCommand_lower [OF assms])

text \<open>
  C10. The command word is matched without regard to case. An ASCII argument \<open>w\<close> that does
  not start with a hyphen can be replaced by its lower-case form, at any place of the
  argument list, and the program prints the same lines, leaves the same files and ends
  with the same exit status. The same holds for every other argument \<open>w\<close>, by two
  properties of the lower-casing of the runtime at \<open>w\<close>: the lower-case form does not
  start with a hyphen either, and lower-casing it again changes nothing.
\<close>

theorem command_case_insensitive:
  "(isAscii w \<and> \<not> startsWith w ''-'' \<longrightarrow>
      main env (pre @ w # post) fs = main env (pre @ toLowerCase env w # post) fs)
   \<and> (\<not> startsWith w ''-'' \<and> \<not> startsWith (toLowerCase env w) ''-''
       \<and> toLowerCase env (toLowerCase env w) = toLowerCase env w \<longrightarrow>
      main env (pre @ w # post) fs = main env (pre @ toLowerCase env w # post) fs)"
  using toLowerCase_ascii_laws [of w env] main_lower [of w env pre post fs]
  by blast

theorem command_case_insensitive_witness:
  "isAscii ''BUILD'' \<and> \<not> startsWith ''BUILD'' ''-''
   \<and> toLowerCase env0 ''BUILD'' = ''build''
   \<and> main env0 [''BUILD''] fs0 = main env0 [''build''] fs0
   \<and> main env0 [''build''] fs0 = runProcess (runBuild env0) fs0
   \<and> \<not> startsWith ([CHR 0xC3, CHR 0x89] @ ''COLE'') ''-''
   \<and> toLowerCase envLatin1 ([CHR 0xC3, CHR 0x89] @ ''COLE'') = [CHR 0xC3, CHR 0xA9] @ ''cole''
   \<and> \<not> startsWith (toLowerCase envLatin1 ([CHR 0xC3, CHR 0x89] @ ''COLE'')) ''-''
   \<and> toLowerCase envLatin1 (toLowerCase envLatin1 ([CHR 0xC3, CHR 0x89] @ ''COLE''))
       = toLowerCase envLatin1 ([CHR 0xC3, CHR 0x89] @ ''COLE'')
   \<and> main envLatin1 [[CHR 0xC3, CHR 0x89] @ ''COLE''] fs0
       = main envLatin1 [[CHR 0xC3, CHR 0xA9] @ ''cole''] fs0"
proof -
  have a: "isAscii ''BUILD''" "\<not> startsWith ''BUILD'' ''-''" "toLowerCase env0 ''BUILD'' = ''build''"
    by code_simp+
  have b: "primaryCommand env0 [''build''] = ''build''"
    by code_simp
  have c: "\<not> startsWith ([CHR 0xC3, CHR 0x89] @ ''COLE'') ''-''"
    "toLowerCase envLatin1 ([CHR 0xC3, CHR 0x89] @ ''COLE'') = [CHR 0xC3, CHR 0xA9] @ ''cole''"
    "\<not> startsWith (toLowerCase envLatin1 ([CHR 0xC3, CHR 0x89] @ ''COLE'')) ''-''"
    "toLowerCase envLatin1 (toLowerCase envLatin1 ([CHR 0xC3, CHR 0x89] @ ''COLE''))
       = toLowerCase envLatin1 ([CHR 0xC3, CHR 0x89] @ ''COLE'')"
    by code_simp+
  have d: "main env0 [''build''] fs0 = runProcess (runBuild env0) fs0"
    using b by (simp add: main_def script_def options_def startsWith_def)
  from command_case_insensitive [of "''BUILD''" env0 "[]" "[]" fs0] a
  have e: "main env0 [''BUILD''] fs0 = main env0 [''build''] fs0"
    by simp
  from command_case_insensitive [of "[CHR 0xC3, CHR 0x89] @ ''COLE''" envLatin1 "[]" "[]" fs0] c
  have f: "main envLatin1 [[CHR 0xC3, CHR 0x89] @ ''COLE''] fs0
       = main envLatin1 [[CHR 0xC3, CHR 0xA9] @ ''cole''] fs0"
    by simp
  from a c d e f show ?thesis by blast
qed


subsection \<open>The assembler\<close>

lemma readFileSync_file: "fs p = Some (File text) \<Longrightarrow> readFileSync p fs = (fs, [], Inr text)"
  by (simp add: readFileSync_def)

lemma readFileSync_fail:
  "\<not> isFile (fs p) \<Longrightarrow> \<exists>e. readFileSync p fs = (fs, [], Inl (Thrown e))"
  by (auto simp: readFileSync_def isFile_def fsError_def split: option.splits node.splits)

lemma resolve_None: "resolve fs p = None \<longleftrightarrow> truthy (path p) \<and> \<not> isFile (fs (the (path p)))"
  by (auto simp: resolve_def isFile_def truthy_def split: option.splits node.splits)

lemma concatParts_ok:
  "\<forall>p \<in> set parts. resolve fs p \<noteq> None \<Longrightarrow>
     concatParts parts buffer fs =
       (fs, [], Inr (buffer @ concat (map (\<lambda>p. the (resolve fs p) @ newline) parts)))"
proof (induction parts arbitrary: buffer)
  case Nil
  then show ?case by (simp add: returnT_def)
next
  case (Cons p parts)
  then have rest: "\<forall>q \<in> set parts. resolve fs q \<noteq> None" and p: "resolve fs p \<noteq> None"
    by simp_all
  show ?case
  proof (cases "truthy (path p)")
    case True
    with p obtain t where f: "fs (the (path p)) = Some (File t)" and r: "resolve fs p = Some t"
      by (auto simp: resolve_def split: option.splits node.splits)
    show ?thesis
      using True Cons.IH [OF rest] by (simp add: bindT_def readFileSync_file [of fs "the (path p)", OF f] r)
  next
    case False
    then show ?thesis
      using Cons.IH [OF rest] by (auto simp: resolve_def truthy_def split: option.splits)
  qed
qed

lemma concatParts_fail:
  "\<exists>p \<in> set parts. resolve fs p = None \<Longrightarrow>
     \<exists>e. concatParts parts buffer fs = (fs, [], Inl (Thrown e))"
proof (induction parts arbitrary: buffer)
  case Nil
  then show ?case by simp
next
  case (Cons p parts)
  show ?case
  proof (cases "resolve fs p")
    case None
    then have t: "truthy (path p)" and nf: "\<not> isFile (fs (the (path p)))"
      by (simp_all add: resolve_None)
    from readFileSync_fail [of fs "the (path p)", OF nf] obtain e where
      "readFileSync (the (path p)) fs = (fs, [], Inl (Thrown e))" ..
    with t show ?thesis by (simp add: bindT_def)
  next
    case (Some t)
    with Cons.prems have "\<exists>q \<in> set parts. resolve fs q = None" by auto
    from Cons.IH [OF this] have ih: "\<And>b. \<exists>e. concatParts parts b fs = (fs, [], Inl (Thrown e))" .
    show ?thesis
    proof (cases "truthy (path p)")
      case True
      with Some have f: "fs (the (path p)) = Some (File t)"
        by (auto simp: resolve_def split: option.splits node.splits)
      from ih [of "buffer @ t @ newline"] obtain e where
        "concatParts parts (buffer @ t @ newline) fs = (fs, [], Inl (Thrown e))" ..
      with True show ?thesis by (simp add: bindT_def readFileSync_file [of fs "the (path p)", OF f])
    next
      case False
      then show ?thesis using ih by simp
    qed
  qed
qed


lemma buildAndClean_ok:
  assumes "\<forall>p \<in> set parts. resolve fs p \<noteq> None" "fs target \<noteq> Some Dir" "parentIsDir fs target"
  shows "buildAndClean target parts replacements fs =
           (fs(target \<mapsto> File (removeMarkers replacements
                 (concat (map (\<lambda>p. the (resolve fs p) @ newline) parts)))), [], Inr Undefined)"
  using assms by (simp add: buildAndClean_def bindT_def concatParts_ok writeFileSync_def returnT_def)

lemma buildAndClean_unreadable:
  assumes "\<exists>p \<in> set parts. resolve fs p = None"
  shows "\<exists>e. buildAndClean target parts replacements fs = (fs, [], Inl (Thrown e))"
proof -
  from concatParts_fail [OF assms] obtain e where
    "concatParts parts [] fs = (fs, [], Inl (Thrown e))" ..
  then show ?thesis by (simp add: buildAndClean_def bindT_def)
qed

lemma buildAndClean_result:
  assumes "buildAndClean target parts replacements fs = (fs', out, Inr v)"
  shows "(\<forall>p \<in> set parts. resolve fs p \<noteq> None) \<and> fs target \<noteq> Some Dir \<and> parentIsDir fs target"
proof -
  have all: "\<forall>p \<in> set parts. resolve fs p \<noteq> None"
  proof (rule ccontr)
    assume "\<not> (\<forall>p \<in> set parts. resolve fs p \<noteq> None)"
    then have "\<exists>p \<in> set parts. resolve fs p = None" by simp
    from buildAndClean_unreadable [OF this, of target replacements] assms show False by auto
  qed
  with assms show ?thesis
    by (auto simp: buildAndClean_def bindT_def concatParts_ok writeFileSync_def returnT_def
        split: if_splits)
qed

text \<open>
  C3. When every fragment resolves, the buffer of the assembler is the texts of the
  fragments in sequence order, each followed by one newline character, whatever the text
  ends in; with no markers this is what is written to the destination. For the two literal
  fragments \<^verbatim>\<open>a\<close> and \<^verbatim>\<open>b\<close> it is \<^verbatim>\<open>a\nb\n\<close>.
\<close>

theorem newline_after_each_fragment:
  "((\<forall>p \<in> set parts. resolve fs p \<noteq> None) \<longrightarrow>
      concatParts parts [] fs =
        (fs, [], Inr (concat (map (\<lambda>p. the (resolve fs p) @ newline) parts))))
   \<and> ((\<forall>p \<in> set parts. resolve fs p \<noteq> None) \<and> fs target \<noteq> Some Dir \<and> parentIsDir fs target \<longrightarrow>
      buildAndClean target parts [] fs =
        (fs(target \<mapsto> File (concat (map (\<lambda>p. the (resolve fs p) @ newline) parts))), [],
         Inr Undefined))
   \<and> concat (map (\<lambda>p. the (resolve fs p) @ newline) [contentPart ''a'', contentPart ''b''])
       = ''a'' @ newline @ ''b'' @ newline"
  by (simp add: concatParts_ok buildAndClean_ok removeMarkers_def)
    (simp add: resolve_def contentPart_def truthy_def)

theorem newline_after_each_fragment_witness:
  "resolve fsA (filePart ''lib/a.js'') \<noteq> None \<and> resolve fsA (contentPart ''b'') \<noteq> None
   \<and> fsA ''out.js'' \<noteq> Some Dir \<and> parentIsDir fsA ''out.js''
   \<and> concatParts [filePart ''lib/a.js'', contentPart ''b''] [] fsA =
        (fsA, [], Inr (''a'' @ newline @ newline @ ''b'' @ newline))
   \<and> buildAndClean ''out.js'' [filePart ''lib/a.js'', contentPart ''b''] [] fsA =
        (fsA(''out.js'' \<mapsto> File (''a'' @ newline @ newline @ ''b'' @ newline)), [], Inr Undefined)"
  using newline_after_each_fragment [of "[filePart ''lib/a.js'', contentPart ''b'']" fsA "''out.js''"]
  by (simp add: resolve_def filePart_def contentPart_def truthy_def fsA_def parentIsDir_def
      dirname_def)

text \<open>
  C4, as the code has it. A call of \<^verbatim>\<open>buildAndClean\<close> that completes evaluates to
  \<^verbatim>\<open>undefined\<close>; the destination then holds the concatenation with the markers removed,
  and a caller gets these bytes by reading the destination back (as \<^verbatim>\<open>runBrowser\<close> does
  before it minifies).
\<close>

theorem buildAndClean_returns_undefined:
  assumes "buildAndClean target parts replacements fs = (fs', out, Inr v)"
  shows "v = Undefined
         \<and> fs' = fs(target \<mapsto> File (removeMarkers replacements
                     (concat (map (\<lambda>p. the (resolve fs p) @ newline) parts))))
         \<and> readFileSync target fs' =
             (fs', [], Inr (removeMarkers replacements
                     (concat (map (\<lambda>p. the (resolve fs p) @ newline) parts))))"
proof -
  from buildAndClean_result [OF assms]
  have "buildAndClean target parts replacements fs =
           (fs(target \<mapsto> File (removeMarkers replacements
                 (concat (map (\<lambda>p. the (resolve fs p) @ newline) parts)))), [], Inr Undefined)"
    by (intro buildAndClean_ok) simp_all
  with assms show ?thesis by (auto simp: readFileSync_def)
qed

theorem buildAndClean_returns_undefined_witness:
  "buildAndClean ''out.js'' [filePart ''lib/a.js'', contentPart ''b''] [] fsA =
      (fsA(''out.js'' \<mapsto> File (''a'' @ newline @ newline @ ''b'' @ newline)), [], Inr Undefined)
   \<and> readFileSync ''out.js'' (fsA(''out.js'' \<mapsto> File (''a'' @ newline @ newline @ ''b'' @ newline))) =
      (fsA(''out.js'' \<mapsto> File (''a'' @ newline @ newline @ ''b'' @ newline)), [],
       Inr (''a'' @ newline @ newline @ ''b'' @ newline))"
proof -
  have run: "buildAndClean ''out.js'' [filePart ''lib/a.js'', contentPart ''b''] [] fsA =
      (fsA(''out.js'' \<mapsto> File (''a'' @ newline @ newline @ ''b'' @ newline)), [], Inr Undefined)"
    by (simp add: buildAndClean_def bindT_def returnT_def readFileSync_def writeFileSync_def
        removeMarkers_def filePart_def contentPart_def truthy_def fsA_def parentIsDir_def
        dirname_def)
  from buildAndClean_returns_undefined [OF run] run show ?thesis
    by (simp add: removeMarkers_def resolve_def filePart_def contentPart_def truthy_def fsA_def)
qed

text \<open>
  C4 as stated fails: the call that writes \<^verbatim>\<open>a\n\<close> to \<^verbatim>\<open>out.js\<close> does not return that
  text.
\<close>

theorem buildAndClean_return_value_counterexample:
  "fst (buildAndClean ''out.js'' [contentPart ''a''] [] fs0) ''out.js'' = Some (File (''a'' @ newline))
   \<and> snd (snd (buildAndClean ''out.js'' [contentPart ''a''] [] fs0)) \<noteq> Inr (Str (''a'' @ newline))"
  by (simp add: buildAndClean_def bindT_def returnT_def writeFileSync_def removeMarkers_def
      contentPart_def truthy_def fs0_def parentIsDir_def dirname_def)


subsection \<open>Sequences of statements\<close>

lemma bindT_returnT: "bindT (returnT x) f = f x"
  by (rule ext) (simp add: bindT_def returnT_def split: prod.splits)

lemma bindT_assoc: "bindT (bindT m f) g = bindT m (\<lambda>x. bindT (f x) g)"
  by (rule ext) (simp add: bindT_def split: prod.splits sum.splits)

lemma seqT_append: "seqT (xs @ ys) = bindT (seqT xs) (\<lambda>_. seqT ys)"
  by (induction xs) (simp_all add: bindT_returnT bindT_assoc)

lemma runProcess_thrown:
  "t fs = (fs', out, Inl (Thrown e)) \<Longrightarrow> runProcess t fs = (fs', out @ [(Stderr, message e)], 1)"
  by (simp add: runProcess_def)

lemma ignoreT_thrown:
  "m fs = (fs', out, Inl e) \<Longrightarrow> ignoreT m fs = (fs', out, Inl e)"
  by (simp add: ignoreT_def bindT_def)

lemma keeps_fst: "keeps I t \<Longrightarrow> I fs \<Longrightarrow> I (fst (t fs))"
  by (simp add: keeps_def)

lemma keeps_returnT: "keeps I (returnT x)"
  by (simp add: keeps_def returnT_def)

lemma keeps_bindT:
  "keeps I m \<Longrightarrow> (\<And>x. keeps I (f x)) \<Longrightarrow> keeps I (bindT m f)"
  unfolding keeps_def bindT_def
  by (auto split: prod.splits sum.splits)

lemma keeps_seqT: "\<forall>s \<in> set ts. keeps I s \<Longrightarrow> keeps I (seqT ts)"
  by (induction ts) (simp_all add: keeps_returnT keeps_bindT)

lemma keeps_forEachT: "\<forall>x \<in> set xs. keeps I (f x) \<Longrightarrow> keeps I (forEachT xs f)"
  by (induction xs) (simp_all add: keeps_returnT keeps_bindT)

lemma seqT_abort:
  assumes steps: "\<forall>s \<in> set ts. keeps I s"
    and dies: "\<And>fs. I fs \<Longrightarrow> \<exists>fs' out e. t fs = (fs', out, Inl (Thrown e)) \<and> I fs'"
    and "I fs"
  shows "\<exists>fs' out e. seqT (ts @ t # rest) fs = (fs', out, Inl (Thrown e)) \<and> I fs'"
  using steps \<open>I fs\<close>
proof (induction ts arbitrary: fs)
  case Nil
  from dies [OF Nil.prems(2)] obtain fs' out e where "t fs = (fs', out, Inl (Thrown e))" "I fs'"
    by blast
  then show ?case by (simp add: bindT_def)
next
  case (Cons s ts)
  obtain fs1 l1 r1 where s: "s fs = (fs1, l1, r1)" by (cases "s fs") auto
  from Cons.prems s
  have I1: "I fs1" and noexit: "\<forall>n. r1 \<noteq> Inl (Exit n)" by (auto simp: keeps_def)
  show ?case
  proof (cases r1)
    case (Inl x)
    with noexit obtain e where "x = Thrown e" by (cases x) auto
    with s Inl I1 show ?thesis by (simp add: bindT_def)
  next
    case (Inr u)
    have "\<exists>fs' out e. seqT (ts @ t # rest) fs1 = (fs', out, Inl (Thrown e)) \<and> I fs'"
      by (rule Cons.IH) (use Cons.prems(1) I1 in auto)
    then obtain fs' out e where "seqT (ts @ t # rest) fs1 = (fs', out, Inl (Thrown e))" "I fs'"
      by blast
    with s Inr show ?thesis by (simp add: bindT_def)
  qed
qed

lemma forEachT_abort:
  assumes steps: "\<forall>x \<in> set pre. keeps I (f x)"
    and dies: "\<And>fs. I fs \<Longrightarrow> \<exists>fs' out e. f y fs = (fs', out, Inl (Thrown e)) \<and> I fs'"
    and "I fs"
  shows "\<exists>fs' out e. forEachT (pre @ y # post) f fs = (fs', out, Inl (Thrown e)) \<and> I fs'"
  using steps \<open>I fs\<close>
proof (induction pre arbitrary: fs)
  case Nil
  from dies [OF Nil.prems(2)] obtain fs' out e where "f y fs = (fs', out, Inl (Thrown e))" "I fs'"
    by blast
  then show ?case by (simp add: bindT_def)
next
  case (Cons s pre)
  obtain fs1 l1 r1 where s: "f s fs = (fs1, l1, r1)" by (cases "f s fs") auto
  from Cons.prems s
  have I1: "I fs1" and noexit: "\<forall>n. r1 \<noteq> Inl (Exit n)" by (auto simp: keeps_def)
  show ?case
  proof (cases r1)
    case (Inl x)
    with noexit obtain e where "x = Thrown e" by (cases x) auto
    with s Inl I1 show ?thesis by (simp add: bindT_def)
  next
    case (Inr u)
    have "\<exists>fs' out e. forEachT (pre @ y # post) f fs1 = (fs', out, Inl (Thrown e)) \<and> I fs'"
      by (rule Cons.IH) (use Cons.prems(1) I1 in auto)
    then obtain fs' out e where "forEachT (pre @ y # post) f fs1 = (fs', out, Inl (Thrown e))" "I fs'"
      by blast
    with s Inr show ?thesis by (simp add: bindT_def)
  qed
qed


subsection \<open>What the statements of the tasks leave untouched\<close>


lemma keeps_console_log: "keeps I (console_log m)"
  by (simp add: keeps_def console_log_def)

lemma keeps_rmSync:
  "keeps (unreadableKept x T c) (bindT (existsSync d) (\<lambda>found. whenT found (rmSync d)))"
  by (simp add: keeps_def unreadableKept_def bindT_def existsSync_def whenT_def rmSync_def
      returnT_def isFile_def)

lemma keeps_mkdirSyncRecursive:
  "T \<notin> set (ancestors d) \<Longrightarrow> keeps (unreadableKept x T c) (mkdirSyncRecursive d)"
  by (simp add: keeps_def unreadableKept_def mkdirSyncRecursive_def fsError_def isFile_def)

lemma keeps_copyFileSync:
  "x \<noteq> dest \<Longrightarrow> T \<noteq> dest \<Longrightarrow> keeps (unreadableKept x T c) (copyFileSync src dest)"
  by (simp add: keeps_def unreadableKept_def copyFileSync_def fsError_def
      split: option.splits node.splits)

lemma buildAndClean_cases:
  "(\<exists>e. buildAndClean target parts replacements fs = (fs, [], Inl (Thrown e)))
   \<or> (\<exists>text. buildAndClean target parts replacements fs = (fs(target \<mapsto> File text), [], Inr Undefined))"
proof (cases "\<forall>p \<in> set parts. resolve fs p \<noteq> None")
  case True
  then show ?thesis
    by (auto simp: buildAndClean_def bindT_def concatParts_ok writeFileSync_def returnT_def
        fsError_def)
next
  case False
  then have "\<exists>p \<in> set parts. resolve fs p = None" by simp
  from buildAndClean_unreadable [OF this] show ?thesis by blast
qed

lemma keeps_buildAndClean:
  assumes "x \<noteq> target" "T \<noteq> target"
  shows "keeps (unreadableKept x T c) (ignoreT (buildAndClean target parts replacements))"
  unfolding keeps_def
proof (intro allI impI)
  fix fs assume I: "unreadableKept x T c fs"
  from buildAndClean_cases [of target parts replacements fs]
  show "unreadableKept x T c (fst (ignoreT (buildAndClean target parts replacements) fs))
        \<and> (\<forall>n. snd (snd (ignoreT (buildAndClean target parts replacements) fs)) \<noteq> Inl (Exit n))"
    using I assms by (auto simp: ignoreT_def bindT_def returnT_def unreadableKept_def)
qed

lemma buildAndClean_dies:
  assumes "p \<in> set parts" "truthy (path p)" "unreadableKept (the (path p)) T c fs"
  shows "\<exists>fs' out e. ignoreT (buildAndClean target parts replacements) fs = (fs', out, Inl (Thrown e))
           \<and> unreadableKept (the (path p)) T c fs'"
proof -
  from assms have "\<exists>q \<in> set parts. resolve fs q = None"
    by (auto simp: unreadableKept_def resolve_None)
  from buildAndClean_unreadable [OF this, of target replacements] assms(3) show ?thesis
    by (auto intro: ignoreT_thrown)
qed

lemma minifyBundle_cases:
  "(\<exists>out. minifyBundle env fs = (fs, out, Inr ()))
   \<or> (\<exists>code out. minifyBundle env fs = (fs(join browserDir ''nodeunit.min.js'' \<mapsto> File code), out, Inr ()))"
  by (auto simp: minifyBundle_def bindT_def returnT_def tryCatch_def console_log_def
      console_error_def readFileSync_def callMinify_def throwT_def writeFileSync_def fsError_def
      split: option.splits node.splits minified.splits)

lemma keeps_minifyBundle:
  assumes "x \<noteq> join browserDir ''nodeunit.min.js''" "T \<noteq> join browserDir ''nodeunit.min.js''"
  shows "keeps (unreadableKept x T c) (minifyBundle env)"
  unfolding keeps_def
proof (intro allI impI)
  fix fs assume I: "unreadableKept x T c fs"
  from minifyBundle_cases [of env fs]
  show "unreadableKept x T c (fst (minifyBundle env fs))
        \<and> (\<forall>n. snd (snd (minifyBundle env fs)) \<noteq> Inl (Exit n))"
    using I assms by (auto simp: unreadableKept_def)
qed

subsection \<open>An unreadable input of a build target\<close>

lemma ancestors_commonjsDir: "ancestors commonjsDir = [''dist'', ''dist/commonjs'']"
  by code_simp

lemma ancestors_commonjsDeps:
  "ancestors (join commonjsDir ''deps'') = [''dist'', ''dist/commonjs'', ''dist/commonjs/deps'']"
  by code_simp

lemma ancestors_browserDir: "ancestors browserDir = [''dist'', ''dist/browser'']"
  by code_simp

lemma ancestors_testDir: "ancestors testDir = [''dist'', ''dist/browser'', ''dist/browser/test'']"
  by code_simp

lemma commonjs_paths: "p \<in> set commonjsParts \<Longrightarrow> truthy (path p) \<Longrightarrow>
   the (path p) \<in> {''lib/assert.js'', ''lib/types.js'', ''lib/core.js'', ''lib/reporters/browser.js''}"
  by (auto simp: commonjsParts_def filePart_def contentPart_def truthy_def)

lemma script_commonjs: "script env [''commonjs''] = runCommonJS"
proof -
  have "isAscii ''commonjs''" "asciiLower ''commonjs'' = ''commonjs''"
    by code_simp+
  then have "primaryCommand env [''commonjs''] = ''commonjs''"
    by (simp add: primaryCommand_def startsWith_def toLowerCase_ascii)
  then show ?thesis by (simp add: script_def options_def startsWith_def)
qed

lemma script_browser: "script env [''browser''] = runBrowser env"
proof -
  have "isAscii ''browser''" "asciiLower ''browser'' = ''browser''"
    by code_simp+
  then have "primaryCommand env [''browser''] = ''browser''"
    by (simp add: primaryCommand_def startsWith_def toLowerCase_ascii)
  then show ?thesis by (simp add: script_def options_def startsWith_def)
qed

lemma commonjs_unreadable:
  assumes p: "p \<in> set commonjsParts" "truthy (path p)" and unreadable: "\<not> isFile (fs (the (path p)))"
  shows "\<exists>fs' out. main env [''commonjs''] fs = (fs', out, 1)
           \<and> (fs' (join commonjsDir ''nodeunit.js'') = None
                \<or> fs' (join commonjsDir ''nodeunit.js'') = fs (join commonjsDir ''nodeunit.js''))"
proof -
  define x where "x = the (path p)"
  define T where "T = join commonjsDir ''nodeunit.js''"
  define I where "I = unreadableKept x T (fs T)"
  define ts where "ts =
     [console_log (newline @ puzzle_piece @ '' Running COMMONJS build task...''),
      bindT (existsSync commonjsDir) (\<lambda>found. whenT found (rmSync commonjsDir)),
      mkdirSyncRecursive commonjsDir,
      mkdirSyncRecursive (join commonjsDir ''deps''),
      copyFileSync ''deps/json2.js'' (join commonjsDir ''deps/json2.js''),
      copyFileSync ''deps/async.js'' (join commonjsDir ''deps/async.js''),
      console_log (''   -> Concatenating library files into '' @ T @ ''...'')]"
  have x: "x \<in> {''lib/assert.js'', ''lib/types.js'', ''lib/core.js'', ''lib/reporters/browser.js''}"
    unfolding x_def using p by (rule commonjs_paths)
  have Tval: "T = ''dist/commonjs/nodeunit.js''"
    by (simp add: T_def join_def commonjsDir_def BUILDDIR_def)
  have run: "runCommonJS =
      seqT (ts @ ignoreT (buildAndClean T commonjsParts commonjsReplacements)
               # [console_log (check_mark @ '' CommonJS build complete.'')])"
    by (simp add: runCommonJS_def Let_def ts_def T_def)
  have k_mk1: "keeps I (mkdirSyncRecursive commonjsDir)"
    unfolding I_def by (rule keeps_mkdirSyncRecursive) (simp add: ancestors_commonjsDir Tval)
  have k_mk2: "keeps I (mkdirSyncRecursive (join commonjsDir ''deps''))"
    unfolding I_def by (rule keeps_mkdirSyncRecursive) (simp add: ancestors_commonjsDeps Tval)
  have k_cp1: "keeps I (copyFileSync ''deps/json2.js'' (join commonjsDir ''deps/json2.js''))"
    unfolding I_def
    by (rule keeps_copyFileSync) (use x in \<open>auto simp: Tval join_def commonjsDir_def BUILDDIR_def\<close>)
  have k_cp2: "keeps I (copyFileSync ''deps/async.js'' (join commonjsDir ''deps/async.js''))"
    unfolding I_def
    by (rule keeps_copyFileSync) (use x in \<open>auto simp: Tval join_def commonjsDir_def BUILDDIR_def\<close>)
  have k_rm: "keeps I (bindT (existsSync commonjsDir) (\<lambda>found. whenT found (rmSync commonjsDir)))"
    unfolding I_def by (rule keeps_rmSync)
  have steps: "\<forall>s \<in> set ts. keeps I s"
    unfolding ts_def by (simp add: keeps_console_log k_rm k_mk1 k_mk2 k_cp1 k_cp2)
  have dies: "\<exists>fs'' out e. ignoreT (buildAndClean T commonjsParts commonjsReplacements) fs' = (fs'', out, Inl (Thrown e)) \<and> I fs''"
    if "I fs'" for fs'
    using p that unfolding I_def x_def by (rule buildAndClean_dies)
  have "I fs" using unreadable by (simp add: I_def x_def unreadableKept_def)
  have "\<exists>fs' out e.
      seqT (ts @ ignoreT (buildAndClean T commonjsParts commonjsReplacements)
               # [console_log (check_mark @ '' CommonJS build complete.'')]) fs
        = (fs', out, Inl (Thrown e)) \<and> I fs'"
    using steps dies \<open>I fs\<close> by (rule seqT_abort)
  then obtain fs' out e where
    "seqT (ts @ ignoreT (buildAndClean T commonjsParts commonjsReplacements)
               # [console_log (check_mark @ '' CommonJS build complete.'')]) fs = (fs', out, Inl (Thrown e))"
    "I fs'" by blast
  then show ?thesis
    by (auto simp: main_def script_commonjs run I_def T_def unreadableKept_def dest: runProcess_thrown)
qed


lemma browser_unreadable:
  assumes p: "p \<in> set browserParts" "truthy (path p)" and unreadable: "\<not> isFile (fs (the (path p)))"
  shows "\<exists>fs' out. main env [''browser''] fs = (fs', out, 1)
           \<and> (fs' browserTarget = None \<or> fs' browserTarget = fs browserTarget)"
proof -
  define x where "x = the (path p)"
  define I where "I = unreadableKept x browserTarget (fs browserTarget)"
  define ts where "ts =
     [console_log (newline @ globe @ '' Running BROWSER build task...''),
      bindT (existsSync browserDir) (\<lambda>found. whenT found (rmSync browserDir)),
      mkdirSyncRecursive browserDir,
      console_log (''   -> Concatenating library files into '' @ browserTarget @ ''...'')]"
  define rest where "rest =
     [console_log ''   -> Copying nodeunit.css'',
      copyFileSync ''share/nodeunit.css'' (join browserDir ''nodeunit.css'')]
     @ [minifyBundle env] @ browserTestSteps"
  have run: "runBrowser env =
      seqT (ts @ ignoreT (buildAndClean browserTarget browserParts browserReplacements) # rest)"
    by (simp add: runBrowser_def browserBundleSteps_def ts_def rest_def)
  have "browserTarget \<notin> set (ancestors browserDir)"
    by code_simp
  then have k_mk: "keeps I (mkdirSyncRecursive browserDir)"
    unfolding I_def by (rule keeps_mkdirSyncRecursive)
  have k_rm: "keeps I (bindT (existsSync browserDir) (\<lambda>found. whenT found (rmSync browserDir)))"
    unfolding I_def by (rule keeps_rmSync)
  have steps: "\<forall>s \<in> set ts. keeps I s"
    unfolding ts_def by (simp add: keeps_console_log k_rm k_mk)
  have dies: "\<exists>fs'' out e. ignoreT (buildAndClean browserTarget browserParts browserReplacements) fs'
                 = (fs'', out, Inl (Thrown e)) \<and> I fs''"
    if "I fs'" for fs'
    using p that unfolding I_def x_def by (rule buildAndClean_dies)
  have "I fs" using unreadable by (simp add: I_def x_def unreadableKept_def)
  have "\<exists>fs' out e.
      seqT (ts @ ignoreT (buildAndClean browserTarget browserParts browserReplacements) # rest) fs
        = (fs', out, Inl (Thrown e)) \<and> I fs'"
    using steps dies \<open>I fs\<close> by (rule seqT_abort)
  then obtain fs' out e where
    "seqT (ts @ ignoreT (buildAndClean browserTarget browserParts browserReplacements) # rest) fs
       = (fs', out, Inl (Thrown e))"
    "I fs'" by blast
  then show ?thesis
    by (auto simp: main_def script_browser run I_def unreadableKept_def dest: runProcess_thrown)
qed

lemma testParts_file: "filePart (''test/'' @ name) \<in> set (testParts name)"
  by (simp add: testParts_def Let_def)

lemma test_script_unreadable:
  assumes script: "name \<in> set testScripts" and unreadable: "\<not> isFile (fs (''test/'' @ name))"
  shows "\<exists>fs' out. main env [''browser''] fs = (fs', out, 1)
           \<and> (fs' (join testDir name) = None \<or> fs' (join testDir name) = fs (join testDir name))"
proof -
  define x where "x = ''test/'' @ name"
  define T where "T = join testDir name"
  define I where "I = unreadableKept x T (fs T)"
  define f where "f = (\<lambda>name.
        ignoreT (buildAndClean (join testDir name) (testParts name) browserReplacements))"
  define ts where "ts = browserBundleSteps @ [minifyBundle env, mkdirSyncRecursive testDir,
      copyFileSync ''test/test.html'' (join testDir ''test.html'')]"
  define rest where "rest =
     [copyFileSync browserTarget (join testDir ''nodeunit.js''),
      copyFileSync (join browserDir ''nodeunit.css'') (join testDir ''nodeunit.css''),
      console_log (check_mark @ '' Browser build complete.'')]"
  have run: "runBrowser env = seqT (ts @ forEachT testScripts f # rest)"
    by (simp add: runBrowser_def browserTestSteps_def ts_def rest_def f_def)
  have Tval: "T = ''dist/browser/test/'' @ name"
    by (simp add: T_def join_def testDir_def browserDir_def BUILDDIR_def)
  have not_html: "name \<noteq> ''test.html''"
    using script by (auto simp: testScripts_def)
  have k1: "keeps I (bindT (existsSync browserDir) (\<lambda>found. whenT found (rmSync browserDir)))"
    unfolding I_def by (rule keeps_rmSync)
  have k2: "keeps I (mkdirSyncRecursive browserDir)"
    unfolding I_def by (rule keeps_mkdirSyncRecursive) (simp add: ancestors_browserDir Tval)
  have k3: "keeps I (ignoreT (buildAndClean browserTarget browserParts browserReplacements))"
    unfolding I_def
    by (rule keeps_buildAndClean)
      (simp_all add: x_def Tval browserTarget_def browserDir_def join_def BUILDDIR_def)
  have k4: "keeps I (copyFileSync ''share/nodeunit.css'' (join browserDir ''nodeunit.css''))"
    unfolding I_def
    by (rule keeps_copyFileSync) (simp_all add: x_def Tval browserDir_def join_def BUILDDIR_def)
  have k5: "keeps I (minifyBundle env)"
    unfolding I_def
    by (rule keeps_minifyBundle) (simp_all add: x_def Tval browserDir_def join_def BUILDDIR_def)
  have k6: "keeps I (mkdirSyncRecursive testDir)"
    unfolding I_def by (rule keeps_mkdirSyncRecursive) (simp add: ancestors_testDir Tval)
  have k7: "keeps I (copyFileSync ''test/test.html'' (join testDir ''test.html''))"
    unfolding I_def
    by (rule keeps_copyFileSync)
      (use not_html in \<open>simp_all add: x_def Tval testDir_def browserDir_def join_def BUILDDIR_def\<close>)
  have steps: "\<forall>s \<in> set ts. keeps I s"
    unfolding ts_def browserBundleSteps_def
    by (simp add: keeps_console_log k1 k2 k3 k4 k5 k6 k7)
  from script obtain pre post where split: "testScripts = pre @ name # post" "name \<notin> set pre"
    by (auto dest: split_list_first)
  have pre: "\<forall>s \<in> set pre. keeps I (f s)"
  proof
    fix s assume "s \<in> set pre"
    with split(2) have "s \<noteq> name" by auto
    then show "keeps I (f s)"
      unfolding I_def f_def
      by (intro keeps_buildAndClean)
        (simp_all add: x_def Tval testDir_def browserDir_def join_def BUILDDIR_def)
  qed
  have dies1: "\<exists>fs'' out e. f name fs' = (fs'', out, Inl (Thrown e)) \<and> I fs''" if "I fs'" for fs'
  proof -
    have "truthy (path (filePart (''test/'' @ name)))"
      by (simp add: filePart_def truthy_def)
    moreover have "unreadableKept (the (path (filePart (''test/'' @ name)))) T (fs T) fs'"
      using that by (simp add: I_def x_def filePart_def)
    ultimately show ?thesis
      unfolding f_def I_def x_def
      using buildAndClean_dies [OF testParts_file, of name T "fs T" fs']
      by (simp add: filePart_def)
  qed
  have dies: "\<exists>fs'' out e. forEachT testScripts f fs' = (fs'', out, Inl (Thrown e)) \<and> I fs''"
    if "I fs'" for fs'
    unfolding split(1) using pre dies1 that by (rule forEachT_abort)
  have "I fs" using unreadable by (simp add: I_def x_def unreadableKept_def)
  have "\<exists>fs' out e. seqT (ts @ forEachT testScripts f # rest) fs = (fs', out, Inl (Thrown e)) \<and> I fs'"
    using steps dies \<open>I fs\<close> by (rule seqT_abort)
  then obtain fs' out e where
    "seqT (ts @ forEachT testScripts f # rest) fs = (fs', out, Inl (Thrown e))" "I fs'"
    by blast
  then show ?thesis
    by (auto simp: main_def script_browser run I_def T_def unreadableKept_def dest: runProcess_thrown)
qed

lemma testParts_path:
  "p \<in> set (testParts name) \<Longrightarrow> truthy (path p) \<Longrightarrow> the (path p) = ''test/'' @ name"
  by (auto simp: testParts_def Let_def filePart_def contentPart_def truthy_def)

text \<open>
  C5. A part with a path that cannot be read makes \<^verbatim>\<open>buildAndClean\<close> throw before its
  write: the file system is left as it was (the destination is neither created nor
  modified, the buffer is gone with the call), and a process in which nothing catches the
  exception ends with exit status 1, whatever statements follow the call. For the plans of
  the script itself (the browser bundle, the CommonJS bundle and the five wrapped test
  scripts) the whole program, run with the target, ends with exit status 1 and leaves the
  destination of the plan absent or as it was.
\<close>

theorem unreadable_fragment_aborts_before_write:
  assumes "p \<in> set parts" "truthy (path p)" "\<not> isFile (fs (the (path p)))"
  shows "(\<exists>e. buildAndClean target parts replacements fs = (fs, [], Inl (Thrown e))
              \<and> (\<forall>k. runProcess (bindT (buildAndClean target parts replacements) k) fs
                        = (fs, [(Stderr, message e)], 1)))
         \<and> (parts = browserParts \<longrightarrow>
              (\<exists>fs' out. main env [''browser''] fs = (fs', out, 1)
                 \<and> (fs' browserTarget = None \<or> fs' browserTarget = fs browserTarget)))
         \<and> (parts = commonjsParts \<longrightarrow>
              (\<exists>fs' out. main env [''commonjs''] fs = (fs', out, 1)
                 \<and> (fs' (join commonjsDir ''nodeunit.js'') = None
                      \<or> fs' (join commonjsDir ''nodeunit.js'') = fs (join commonjsDir ''nodeunit.js''))))
         \<and> (\<forall>name \<in> set testScripts. parts = testParts name \<longrightarrow>
              (\<exists>fs' out. main env [''browser''] fs = (fs', out, 1)
                 \<and> (fs' (join testDir name) = None
                      \<or> fs' (join testDir name) = fs (join testDir name))))"
proof -
  from assms have "\<exists>q \<in> set parts. resolve fs q = None"
    by (auto simp: resolve_None)
  from buildAndClean_unreadable [OF this, of target replacements]
  obtain e where e: "buildAndClean target parts replacements fs = (fs, [], Inl (Thrown e))" ..
  then have "runProcess (bindT (buildAndClean target parts replacements) k) fs
               = (fs, [(Stderr, message e)], 1)" for k
    by (simp add: runProcess_def bindT_def)
  with e have first: "\<exists>e. buildAndClean target parts replacements fs = (fs, [], Inl (Thrown e))
              \<and> (\<forall>k. runProcess (bindT (buildAndClean target parts replacements) k) fs
                        = (fs, [(Stderr, message e)], 1))"
    by blast
  have tests: "\<exists>fs' out. main env [''browser''] fs = (fs', out, 1)
                 \<and> (fs' (join testDir name) = None
                      \<or> fs' (join testDir name) = fs (join testDir name))"
    if "name \<in> set testScripts" "parts = testParts name" for name
  proof -
    from assms that(2) have "\<not> isFile (fs (''test/'' @ name))"
      by (simp add: testParts_path)
    with that(1) show ?thesis by (rule test_script_unreadable)
  qed
  have browser: "\<exists>fs' out. main env [''browser''] fs = (fs', out, 1)
                 \<and> (fs' browserTarget = None \<or> fs' browserTarget = fs browserTarget)"
    if "parts = browserParts"
    using assms unfolding that by (rule browser_unreadable)
  have commonjs: "\<exists>fs' out. main env [''commonjs''] fs = (fs', out, 1)
                 \<and> (fs' (join commonjsDir ''nodeunit.js'') = None
                      \<or> fs' (join commonjsDir ''nodeunit.js'') = fs (join commonjsDir ''nodeunit.js''))"
    if "parts = commonjsParts"
    using assms unfolding that by (rule commonjs_unreadable)
  from first browser commonjs tests show ?thesis
    by blast
qed

theorem unreadable_fragment_aborts_before_write_witness:
  "filePart ''lib/core.js'' \<in> set browserParts
   \<and> truthy (path (filePart ''lib/core.js''))
   \<and> \<not> isFile (fsNoCore (the (path (filePart ''lib/core.js''))))
   \<and> (\<exists>e. buildAndClean browserTarget browserParts browserReplacements fsNoCore
             = (fsNoCore, [], Inl (Thrown e)))
   \<and> (\<exists>fs' out. main env0 [''browser''] fsNoCore = (fs', out, 1)
         \<and> (fs' browserTarget = None \<or> fs' browserTarget = fsNoCore browserTarget))"
proof -
  have h: "filePart ''lib/core.js'' \<in> set browserParts"
    "truthy (path (filePart ''lib/core.js''))"
    "\<not> isFile (fsNoCore (the (path (filePart ''lib/core.js''))))"
    by (simp_all add: browserParts_def filePart_def truthy_def fsNoCore_def isFile_def)
  from unreadable_fragment_aborts_before_write
         [of "filePart ''lib/core.js''" browserParts fsNoCore browserTarget browserReplacements env0]
       h
  show ?thesis by blast
qed

subsection \<open>The minification step\<close>










subsection \<open>Marker removal\<close>

lemma regexpAtoms_escapeRegExp: "regexpAtoms (escapeRegExp line) = line"
proof (induction line)
  case Nil
  then show ?case by simp
next
  case (Cons c cs)
  show ?case
  proof (cases "c \<in> set regexpSpecials")
    case True
    with Cons show ?thesis by simp
  next
    case False
    then have c: "c \<noteq> CHR 0x5C" by (auto simp: regexpSpecials_def)
    show ?thesis
    proof (cases "escapeRegExp cs")
      case Nil
      with Cons False show ?thesis by simp
    next
      case (Cons d ds)
      with Cons.IH False c show ?thesis by simp
    qed
  qed
qed

lemma removeMarker_replaceAll: "removeMarker line buffer = replaceAll line buffer"
  by (simp add: removeMarker_def regexpAtoms_escapeRegExp)

lemma prefix_occursAt:
  assumes "k \<le> length s"
  shows "prefix m (drop k s) \<longleftrightarrow> occursAt m s k"
proof
  assume "prefix m (drop k s)"
  then obtain zs where zs: "drop k s = m @ zs" by (auto simp: prefix_def)
  then have "length (drop k s) = length m + length zs" by simp
  with assms have "k + length m \<le> length s" by simp
  with zs show "occursAt m s k" by (simp add: occursAt_def)
next
  assume "occursAt m s k"
  then have "take (length m) (drop k s) = m" by (simp add: occursAt_def)
  then have "drop k s = m @ drop (length m) (drop k s)"
    by (metis append_take_drop_id)
  then show "prefix m (drop k s)" by (metis prefixI)
qed

lemma occurrences_mem:
  "i \<in> set (occurrences m s) \<longleftrightarrow> i < length s \<and> occursAt m s i"
  by (auto simp: occurrences_def)

lemma unbordered_disjoint:
  assumes "unbordered m"
  shows "disjointOccurrences m s"
  unfolding disjointOccurrences_def
proof (intro ballI impI)
  fix i j assume i: "i \<in> set (occurrences m s)" and j: "j \<in> set (occurrences m s)" and "i < j"
  show "i + length m \<le> j"
  proof (rule ccontr)
    assume "\<not> i + length m \<le> j"
    with \<open>i < j\<close> have d: "0 < j - i" "j - i < length m" by simp_all
    from i j have oi: "take (length m) (drop i s) = m" and oj: "take (length m) (drop j s) = m"
      by (simp_all add: occurrences_mem occursAt_def)
    have "drop (j - i) m = drop (j - i) (take (length m) (drop i s))"
      using oi by simp
    also have "\<dots> = take (length m - (j - i)) (drop j s)"
      using \<open>i < j\<close> by (simp add: drop_take)
    also have "\<dots> = take (length m - (j - i)) (take (length m) (drop j s))"
      by (simp add: min_def)
    also have "\<dots> = take (length m - (j - i)) m"
      using oj by simp
    finally have "take (length m - (j - i)) m = drop (length m - (length m - (j - i))) m"
      using d by simp
    moreover from d have "length m - (j - i) \<in> set [1..<length m]" by auto
    ultimately show False using assms by (auto simp: unbordered_def)
  qed
qed


lemma filter_upt_skip:
  assumes "a \<le> b" "b \<le> n" "\<forall>j. a \<le> j \<and> j < b \<longrightarrow> \<not> P j"
  shows "filter P [a..<n] = filter P [b..<n]"
proof -
  from assms(1,2) have "[a..<n] = [a..<b] @ [b..<b + (n - b)]"
    using upt_add_eq_append [of a b "n - b"] by simp
  with assms(2) have "[a..<n] = [a..<b] @ [b..<n]" by simp
  moreover from assms(3) have "filter P [a..<b] = []" by (auto simp: filter_empty_conv)
  ultimately show ?thesis by simp
qed

lemma replaceAll_prefix:
  "m \<noteq> [] \<Longrightarrow> prefix m xs \<Longrightarrow> replaceAll m xs = replaceAll m (drop (length m) xs)"
  by (cases xs) auto

lemma replaceAll_keep:
  "\<not> (m \<noteq> [] \<and> prefix m (c # cs)) \<Longrightarrow> replaceAll m (c # cs) = c # replaceAll m cs"
  by auto

lemma replaceAll_from:
  assumes disj: "disjointOccurrences m s"
  shows "k \<le> length s \<Longrightarrow>
     (\<forall>i \<in> set (occurrences m s). i < k \<longrightarrow> i + length m \<le> k) \<Longrightarrow>
     replaceAll m (drop k s) = map (\<lambda>j. s ! j) (filter (\<lambda>j. \<not> covered m s j) [k..<length s])
     \<and> length (replaceAll m (drop k s))
         + length m * length (filter (occursAt m s) [k..<length s]) = length s - k"
proof (induction "length s - k" arbitrary: k rule: less_induct)
  case less
  let ?n = "length s" and ?L = "length m"
  show ?case
  proof (cases "k = ?n")
    case True
    then show ?thesis by simp
  next
    case False
    with less.prems(1) have k: "k < ?n" by simp
    have dk: "drop k s = s ! k # drop (Suc k) s"
      using k by (simp add: Cons_nth_drop_Suc)
    have upt: "[k..<?n] = k # [Suc k..<?n]"
      using k by (rule upt_conv_Cons)
    show ?thesis
    proof (cases "m \<noteq> [] \<and> occursAt m s k")
      case True
      then have L: "0 < ?L" and fit: "k + ?L \<le> ?n" and occ: "occursAt m s k"
        by (simp_all add: occursAt_def)
      from occ k have kocc: "k \<in> set (occurrences m s)" by (simp add: occurrences_mem)
      have pre: "prefix m (drop k s)"
        using occ prefix_occursAt [of k s m] k by simp
      have step: "replaceAll m (drop k s) = replaceAll m (drop (k + ?L) s)"
        using replaceAll_prefix [OF _ pre] True by (simp add: add.commute)
      have later: "k + ?L \<le> i" if "i \<in> set (occurrences m s)" "k < i" for i
        using disj kocc that by (auto simp: disjointOccurrences_def)
      have clean: "\<forall>i \<in> set (occurrences m s). i < k + ?L \<longrightarrow> i + ?L \<le> k + ?L"
      proof (intro ballI impI)
        fix i assume i: "i \<in> set (occurrences m s)" "i < k + ?L"
        consider "i < k" | "i = k" | "k < i" by linarith
        then show "i + ?L \<le> k + ?L"
        proof cases
          case 1
          with less.prems(2) i(1) show ?thesis by auto
        next
          case 2
          then show ?thesis by simp
        next
          case 3
          from later [OF i(1) 3] i(2) show ?thesis by simp
        qed
      qed
      from L k fit have "?n - (k + ?L) < ?n - k" by arith
      from less.hyps [OF this fit clean]
      have ih1: "replaceAll m (drop (k + ?L) s)
                   = map (\<lambda>j. s ! j) (filter (\<lambda>j. \<not> covered m s j) [k + ?L..<?n])"
        and ih2: "length (replaceAll m (drop (k + ?L) s))
                   + ?L * length (filter (occursAt m s) [k + ?L..<?n]) = ?n - (k + ?L)"
        by blast+
      have "\<forall>j. k \<le> j \<and> j < k + ?L \<longrightarrow> \<not> \<not> covered m s j"
        using kocc by (auto simp: covered_def)
      then have cov: "filter (\<lambda>j. \<not> covered m s j) [k..<?n]
                       = filter (\<lambda>j. \<not> covered m s j) [k + ?L..<?n]"
        using fit by (intro filter_upt_skip) simp_all
      have "\<forall>j. Suc k \<le> j \<and> j < k + ?L \<longrightarrow> \<not> occursAt m s j"
      proof (intro allI impI)
        fix j assume j: "Suc k \<le> j \<and> j < k + ?L"
        show "\<not> occursAt m s j"
        proof
          assume "occursAt m s j"
          with j fit have "j \<in> set (occurrences m s)" by (simp add: occurrences_mem)
          from later [OF this] j show False by simp
        qed
      qed
      moreover from L have "Suc k \<le> k + ?L" by arith
      ultimately have "filter (occursAt m s) [Suc k..<?n] = filter (occursAt m s) [k + ?L..<?n]"
        using fit by (intro filter_upt_skip)
      with occ have cnt: "length (filter (occursAt m s) [k..<?n])
                       = Suc (length (filter (occursAt m s) [k + ?L..<?n]))"
        unfolding upt by simp
      from ih2 fit have "length (replaceAll m (drop (k + ?L) s))
                   + ?L * Suc (length (filter (occursAt m s) [k + ?L..<?n])) = ?n - k"
        by simp
      with step ih1 cov cnt show ?thesis by simp
    next
      case False
      then have nopre: "\<not> (m \<noteq> [] \<and> prefix m (s ! k # drop (Suc k) s))"
        using prefix_occursAt [of k s m] k dk by simp
      have step: "replaceAll m (drop k s) = s ! k # replaceAll m (drop (Suc k) s)"
        unfolding dk using nopre by (rule replaceAll_keep)
      have clean: "\<forall>i \<in> set (occurrences m s). i < Suc k \<longrightarrow> i + ?L \<le> Suc k"
      proof (intro ballI impI)
        fix i assume i: "i \<in> set (occurrences m s)" "i < Suc k"
        show "i + ?L \<le> Suc k"
        proof (cases "i = k")
          case True
          with i(1) False have "m = []" by (auto simp: occurrences_mem)
          with True show ?thesis by simp
        next
          case False
          with i(2) have "i < k" by simp
          with less.prems(2) i(1) show ?thesis by auto
        qed
      qed
      from k have "?n - Suc k < ?n - k" "Suc k \<le> ?n" by simp_all
      from less.hyps [OF this clean]
      have ih1: "replaceAll m (drop (Suc k) s)
                   = map (\<lambda>j. s ! j) (filter (\<lambda>j. \<not> covered m s j) [Suc k..<?n])"
        and ih2: "length (replaceAll m (drop (Suc k) s))
                   + ?L * length (filter (occursAt m s) [Suc k..<?n]) = ?n - Suc k"
        by blast+
      have notcov: "\<not> covered m s k"
      proof
        assume "covered m s k"
        then obtain i where i: "i \<in> set (occurrences m s)" "i \<le> k" "k < i + ?L"
          by (auto simp: covered_def)
        show False
        proof (cases "i = k")
          case True
          with i False show False by (auto simp: occurrences_mem)
        next
          case False
          with i(2) have "i < k" by simp
          with less.prems(2) i(1,3) show False by auto
        qed
      qed
      have cnt: "?L * length (filter (occursAt m s) [k..<?n])
                   = ?L * length (filter (occursAt m s) [Suc k..<?n])"
        using False unfolding upt by auto
      have keep: "filter (\<lambda>j. \<not> covered m s j) [k..<?n]
                    = k # filter (\<lambda>j. \<not> covered m s j) [Suc k..<?n]"
        using notcov unfolding upt by simp
      have first: "replaceAll m (drop k s)
                    = map (\<lambda>j. s ! j) (filter (\<lambda>j. \<not> covered m s j) [k..<?n])"
        unfolding step ih1 keep by simp
      from ih2 k have "Suc (length (replaceAll m (drop (Suc k) s)))
                   + ?L * length (filter (occursAt m s) [Suc k..<?n]) = ?n - k"
        by simp
      then have second: "length (replaceAll m (drop k s))
                   + ?L * length (filter (occursAt m s) [k..<?n]) = ?n - k"
        unfolding step cnt by simp
      from first second show ?thesis ..
    qed
  qed
qed

lemma replaceAll_cuts_occurrences:
  assumes "disjointOccurrences m s"
  shows "replaceAll m s = withoutOccurrences m s"
    and "length (replaceAll m s) + length (occurrences m s) * length m = length s"
proof -
  have start: "0 \<le> length s" "\<forall>i \<in> set (occurrences m s). i < 0 \<longrightarrow> i + length m \<le> 0"
    by simp_all
  note r = replaceAll_from [OF assms start]
  from r [THEN conjunct1]
  have a: "replaceAll m s = map (\<lambda>j. s ! j) (filter (\<lambda>j. \<not> covered m s j) [0..<length s])"
    by simp
  from r [THEN conjunct2]
  have b: "length (replaceAll m s)
              + length m * length (filter (occursAt m s) [0..<length s]) = length s"
    by simp
  from a show "replaceAll m s = withoutOccurrences m s"
    by (simp add: withoutOccurrences_def)
  from b show "length (replaceAll m s) + length (occurrences m s) * length m = length s"
    by (simp add: occurrences_def mult.commute)
qed

lemma no_occurrence_unchanged:
  assumes "occurrences m s = []"
  shows "replaceAll m s = s"
proof -
  from assms have d: "disjointOccurrences m s" by (simp add: disjointOccurrences_def)
  from assms have "\<not> covered m s j" for j by (simp add: covered_def)
  then have "withoutOccurrences m s = map (\<lambda>j. s ! j) [0..<length s]"
    by (simp add: withoutOccurrences_def)
  with replaceAll_cuts_occurrences(1) [OF d] show ?thesis by (simp add: map_nth)
qed

lemma build_markers_unbordered: "unbordered markerBrowser \<and> unbordered markerCommonJS"
  by code_simp

subsection \<open>The order of the markers\<close>

lemma replacements_markers:
  "browserReplacements = [markerBrowser]" "commonjsReplacements = [markerBrowser, markerCommonJS]"
  by (simp_all add: browserReplacements_def commonjsReplacements_def markerBrowser_def
      markerCommonJS_def)

lemma replaceAll_no_match:
  "\<not> prefix m (c # cs) \<Longrightarrow> replaceAll m (c # cs) = c # replaceAll m cs"
  by simp

lemma replaceAll_match:
  "m \<noteq> [] \<Longrightarrow> replaceAll m (m @ rest) = replaceAll m rest"
  by (cases m) simp_all

lemma replaceAll_skip:
  "m = a # t \<Longrightarrow> a \<notin> set u \<Longrightarrow> replaceAll m (u @ rest) = u @ replaceAll m rest"
  by (induction u) auto

lemma atSignsSettled_suffix: "atSignsSettled (u @ v) \<Longrightarrow> atSignsSettled v"
  by (induction u) auto

lemma markers_shape:
  "markerBrowser = CHR ''@'' # ''REMOVE_LINE_FOR_BROWSER''"
  "markerCommonJS = CHR ''@'' # ''REMOVE_LINE_FOR_COMMONJS''"
  "CHR ''@'' \<notin> set ''REMOVE_LINE_FOR_BROWSER''"
  "CHR ''@'' \<notin> set ''REMOVE_LINE_FOR_COMMONJS''"
  by (simp_all add: markerBrowser_def markerCommonJS_def)

lemma markers_apart:
  "\<not> prefix markerCommonJS (markerBrowser @ rest)"
  "\<not> prefix markerBrowser (markerCommonJS @ rest)"
  by (simp_all add: markerBrowser_def markerCommonJS_def)

lemma replaceAll_other_marker:
  "replaceAll markerCommonJS (markerBrowser @ rest) = markerBrowser @ replaceAll markerCommonJS rest"
  "replaceAll markerBrowser (markerCommonJS @ rest) = markerCommonJS @ replaceAll markerBrowser rest"
proof -
  have "replaceAll markerCommonJS (CHR ''@'' # ''REMOVE_LINE_FOR_BROWSER'' @ rest)
          = CHR ''@'' # replaceAll markerCommonJS (''REMOVE_LINE_FOR_BROWSER'' @ rest)"
    using markers_apart(1) [of rest] unfolding markers_shape(1)
    by (intro replaceAll_no_match) simp
  also have "replaceAll markerCommonJS (''REMOVE_LINE_FOR_BROWSER'' @ rest)
          = ''REMOVE_LINE_FOR_BROWSER'' @ replaceAll markerCommonJS rest"
    using markers_shape(2,3) by (rule replaceAll_skip)
  finally show "replaceAll markerCommonJS (markerBrowser @ rest)
                  = markerBrowser @ replaceAll markerCommonJS rest"
    unfolding markers_shape(1) by simp
next
  have "replaceAll markerBrowser (CHR ''@'' # ''REMOVE_LINE_FOR_COMMONJS'' @ rest)
          = CHR ''@'' # replaceAll markerBrowser (''REMOVE_LINE_FOR_COMMONJS'' @ rest)"
    using markers_apart(2) [of rest] unfolding markers_shape(2)
    by (intro replaceAll_no_match) simp
  also have "replaceAll markerBrowser (''REMOVE_LINE_FOR_COMMONJS'' @ rest)
          = ''REMOVE_LINE_FOR_COMMONJS'' @ replaceAll markerBrowser rest"
    using markers_shape(1,4) by (rule replaceAll_skip)
  finally show "replaceAll markerBrowser (markerCommonJS @ rest)
                  = markerCommonJS @ replaceAll markerBrowser rest"
    unfolding markers_shape(2) by simp
qed

lemma marker_needs_R:
  "prefix markerBrowser (CHR ''@'' # xs) \<Longrightarrow> xs \<noteq> [] \<and> hd xs = CHR ''R''"
  "prefix markerCommonJS (CHR ''@'' # xs) \<Longrightarrow> xs \<noteq> [] \<and> hd xs = CHR ''R''"
  by (cases xs; simp add: markerBrowser_def markerCommonJS_def)+

lemma marker_needs_at:
  "prefix markerBrowser (c # cs) \<Longrightarrow> c = CHR ''@''"
  "prefix markerCommonJS (c # cs) \<Longrightarrow> c = CHR ''@''"
  by (simp_all add: markerBrowser_def markerCommonJS_def)

lemma replaceAll_stray:
  assumes m: "m = markerBrowser \<or> m = markerCommonJS"
    and m': "m' = markerBrowser \<or> m' = markerCommonJS"
    and free: "\<not> prefix m (CHR ''@'' # cs)"
    and next_char: "cs = [] \<or> (hd cs \<noteq> CHR ''R'' \<and> hd cs \<noteq> CHR ''@'')"
  shows "replaceAll m' (replaceAll m (CHR ''@'' # cs)) = CHR ''@'' # replaceAll m' (replaceAll m cs)"
proof -
  have step: "replaceAll m (CHR ''@'' # cs) = CHR ''@'' # replaceAll m cs"
    using free by (rule replaceAll_no_match)
  have "replaceAll m cs = [] \<or> hd (replaceAll m cs) \<noteq> CHR ''R''"
  proof (cases cs)
    case Nil
    then show ?thesis by simp
  next
    case (Cons d ds)
    with next_char have "d \<noteq> CHR ''@''" "d \<noteq> CHR ''R''" by simp_all
    with m have "\<not> prefix m (d # ds)" by (auto dest: marker_needs_at)
    then have "replaceAll m (d # ds) = d # replaceAll m ds" by (rule replaceAll_no_match)
    with Cons \<open>d \<noteq> CHR ''R''\<close> show ?thesis by simp
  qed
  with m' have "\<not> prefix m' (CHR ''@'' # replaceAll m cs)"
    by (auto dest: marker_needs_R)
  then show ?thesis unfolding step by (rule replaceAll_no_match)
qed

lemma marker_removal_commutes:
  "atSignsSettled s \<Longrightarrow>
     replaceAll markerCommonJS (replaceAll markerBrowser s)
       = replaceAll markerBrowser (replaceAll markerCommonJS s)"
proof (induction s rule: length_induct)
  case (1 s)
  note IH = "1.IH" [rule_format]
  show ?case
  proof (cases s)
    case Nil
    then show ?thesis by simp
  next
    case (Cons c cs)
    have ne: "markerBrowser \<noteq> []" "markerCommonJS \<noteq> []"
      by (simp_all add: markerBrowser_def markerCommonJS_def)
    consider (B) "prefix markerBrowser s" | (C) "prefix markerCommonJS s"
      | (stray) "c = CHR ''@''" "\<not> prefix markerBrowser s" "\<not> prefix markerCommonJS s"
      | (other) "c \<noteq> CHR ''@''"
      by blast
    then show ?thesis
    proof cases
      case B
      then obtain rest where s: "s = markerBrowser @ rest" by (auto simp: prefix_def)
      with "1.prems" have "atSignsSettled rest" by (auto dest: atSignsSettled_suffix)
      moreover from s ne have "length rest < length s" by simp
      ultimately have "replaceAll markerCommonJS (replaceAll markerBrowser rest)
                         = replaceAll markerBrowser (replaceAll markerCommonJS rest)"
        by (rule IH [rotated])
      then show ?thesis
        unfolding s by (simp add: replaceAll_match ne replaceAll_other_marker)
    next
      case C
      then obtain rest where s: "s = markerCommonJS @ rest" by (auto simp: prefix_def)
      with "1.prems" have "atSignsSettled rest" by (auto dest: atSignsSettled_suffix)
      moreover from s ne have "length rest < length s" by simp
      ultimately have "replaceAll markerCommonJS (replaceAll markerBrowser rest)
                         = replaceAll markerBrowser (replaceAll markerCommonJS rest)"
        by (rule IH [rotated])
      then show ?thesis
        unfolding s by (simp add: replaceAll_match ne replaceAll_other_marker)
    next
      case stray
      from "1.prems" Cons stray have nx: "cs = [] \<or> (hd cs \<noteq> CHR ''R'' \<and> hd cs \<noteq> CHR ''@'')"
        and rest: "atSignsSettled cs"
        by auto
      from Cons rest have ih: "replaceAll markerCommonJS (replaceAll markerBrowser cs)
                         = replaceAll markerBrowser (replaceAll markerCommonJS cs)"
        by (intro IH) simp_all
      have "replaceAll markerCommonJS (replaceAll markerBrowser (CHR ''@'' # cs))
              = CHR ''@'' # replaceAll markerCommonJS (replaceAll markerBrowser cs)"
        using stray Cons nx by (intro replaceAll_stray) simp_all
      moreover have "replaceAll markerBrowser (replaceAll markerCommonJS (CHR ''@'' # cs))
              = CHR ''@'' # replaceAll markerBrowser (replaceAll markerCommonJS cs)"
        using stray Cons nx by (intro replaceAll_stray) simp_all
      ultimately show ?thesis using ih Cons stray(1) by simp
    next
      case other
      from "1.prems" Cons have rest: "atSignsSettled cs" by simp
      from Cons rest have ih: "replaceAll markerCommonJS (replaceAll markerBrowser cs)
                         = replaceAll markerBrowser (replaceAll markerCommonJS cs)"
        by (intro IH) simp_all
      have no: "\<not> prefix markerBrowser (c # xs)" "\<not> prefix markerCommonJS (c # xs)" for xs
        using other by (auto dest: marker_needs_at)
      show ?thesis
        unfolding Cons using ih by (simp add: replaceAll_no_match no del: replaceAll.simps)
    qed
  qed
qed

text \<open>
  C7, as the code has it. With the single marker of the browser target there is one order
  only. With the two markers of the CommonJS target, removing them in either order gives
  the same buffer whenever every \<^verbatim>\<open>@\<close> of the buffer begins a marker, ends the buffer, or
  stands before a character other than \<^verbatim>\<open>R\<close> and \<^verbatim>\<open>@\<close>.
\<close>

theorem commonjs_marker_removal_commutes:
  "removeMarkers browserReplacements s = removeMarkers (rev browserReplacements) s
   \<and> (atSignsSettled s \<longrightarrow>
        removeMarkers commonjsReplacements s = removeMarkers (rev commonjsReplacements) s)"
  using marker_removal_commutes [of s]
  by (simp add: removeMarkers_def replacements_markers removeMarker_replaceAll)

theorem commonjs_marker_removal_commutes_witness:
  "atSignsSettled (''/* @param a */ f(); //@REMOVE_LINE_FOR_COMMONJS'' @ newline
                   @ ''g(); //@REMOVE_LINE_FOR_BROWSER@'')
   \<and> removeMarkers commonjsReplacements
        (''/* @param a */ f(); //@REMOVE_LINE_FOR_COMMONJS'' @ newline
         @ ''g(); //@REMOVE_LINE_FOR_BROWSER@'')
       = removeMarkers (rev commonjsReplacements)
          (''/* @param a */ f(); //@REMOVE_LINE_FOR_COMMONJS'' @ newline
           @ ''g(); //@REMOVE_LINE_FOR_BROWSER@'')"
proof -
  have "atSignsSettled (''/* @param a */ f(); //@REMOVE_LINE_FOR_COMMONJS'' @ newline
                   @ ''g(); //@REMOVE_LINE_FOR_BROWSER@'')"
    by code_simp
  with commonjs_marker_removal_commutes
         [of "''/* @param a */ f(); //@REMOVE_LINE_FOR_COMMONJS'' @ newline
              @ ''g(); //@REMOVE_LINE_FOR_BROWSER@''"]
  show ?thesis by blast
qed

text \<open>
  C7 as stated fails: in the buffer below the deletion of the browser marker splices an
  occurrence of the CommonJS marker together, so the two orders give different buffers.
\<close>

theorem marker_order_counterexample:
  "removeMarkers commonjsReplacements ''@REMOVE_LINE_FOR_@REMOVE_LINE_FOR_BROWSERCOMMONJS'' = []
   \<and> removeMarkers (rev commonjsReplacements) ''@REMOVE_LINE_FOR_@REMOVE_LINE_FOR_BROWSERCOMMONJS''
       = ''@REMOVE_LINE_FOR_COMMONJS''"
  by code_simp

subsection \<open>Marker removal in an assembly plan\<close>

lemma removeMarkers_none:
  "list_all (\<lambda>m. occurrences m s = []) ms \<Longrightarrow> removeMarkers ms s = s"
  by (induction ms) (simp_all add: removeMarkers_def removeMarker_replaceAll no_occurrence_unchanged)

lemma occursAt_nth:
  assumes "occursAt m s k" "k \<le> j" "j < k + length m"
  shows "s ! j = m ! (j - k)"
proof -
  from assms(1) have fit: "k + length m \<le> length s" and t: "take (length m) (drop k s) = m"
    by (simp_all add: occursAt_def)
  from assms(2,3) have "m ! (j - k) = take (length m) (drop k s) ! (j - k)"
    using t by simp
  also from assms(2,3) fit have "\<dots> = s ! j" by simp
  finally show ?thesis by simp
qed

lemma marker_at_sign:
  assumes "m = markerBrowser \<or> m = markerCommonJS"
  shows "m ! 0 = CHR ''@''" "0 < length m" "0 < i \<Longrightarrow> i < length m \<Longrightarrow> m ! i \<noteq> CHR ''@''"
proof -
  from assms obtain t where m: "m = CHR ''@'' # t" and t: "CHR ''@'' \<notin> set t"
    using markers_shape by blast
  from m show "m ! 0 = CHR ''@''" "0 < length m" by simp_all
  assume "0 < i" "i < length m"
  with m have "m ! i \<in> set t" by (cases i) auto
  with t show "m ! i \<noteq> CHR ''@''" by auto
qed

lemma no_marker_inside:
  assumes m: "m = markerBrowser \<or> m = markerCommonJS"
    and m': "m' = markerBrowser \<or> m' = markerCommonJS"
    and "occursAt m s k" "occursAt m' s i" "k < i" "i < k + length m"
  shows False
proof -
  from marker_at_sign(2) [OF m'] assms(4) have "s ! i = m' ! 0"
    using occursAt_nth [of m' s i i] by simp
  with marker_at_sign(1) [OF m'] have "s ! i = CHR ''@''" by simp
  moreover from assms(3,5,6) have "s ! i = m ! (i - k)"
    by (intro occursAt_nth) simp_all
  moreover from assms(5,6) have "m ! (i - k) \<noteq> CHR ''@''"
    by (intro marker_at_sign(3) [OF m]) simp_all
  ultimately show False by simp
qed

lemma not_both_markers:
  assumes "occursAt markerBrowser s k" "occursAt markerCommonJS s k"
  shows False
proof -
  from assms(1) have k: "k \<le> length s" by (simp add: occursAt_def)
  with assms have "prefix markerBrowser (drop k s)" "prefix markerCommonJS (drop k s)"
    by (simp_all add: prefix_occursAt)
  then have c: "prefix markerCommonJS (drop k s)"
    and b: "\<exists>r. drop k s = markerBrowser @ r"
    by (simp_all add: prefix_def)
  from b obtain r where "drop k s = markerBrowser @ r" ..
  with c markers_apart(1) [of r] show False by simp
qed


lemma marker_step:
  assumes m: "m = markerBrowser \<or> m = markerCommonJS"
    and occ: "occursAt m s k"
    and clean: "\<forall>m' i. (m' = markerBrowser \<or> m' = markerCommonJS) \<and> occursAt m' s i \<and> i < k
                  \<longrightarrow> i + length m' \<le> k"
  shows "k + length m \<le> length s" "0 < length m"
    and "\<forall>m' i. (m' = markerBrowser \<or> m' = markerCommonJS) \<and> occursAt m' s i
            \<and> i < k + length m \<longrightarrow> i + length m' \<le> k + length m"
    and "filter (\<lambda>j. \<not> coveredBy [markerBrowser, markerCommonJS] s j) [k..<length s]
           = filter (\<lambda>j. \<not> coveredBy [markerBrowser, markerCommonJS] s j) [k + length m..<length s]"
    and "m' = markerBrowser \<or> m' = markerCommonJS \<Longrightarrow>
           filter (occursAt m' s) [Suc k..<length s] = filter (occursAt m' s) [k + length m..<length s]"
    and "m' = markerBrowser \<or> m' = markerCommonJS \<Longrightarrow> m' \<noteq> m \<Longrightarrow> \<not> occursAt m' s k"
proof -
  show fit: "k + length m \<le> length s" using occ by (simp add: occursAt_def)
  show L: "0 < length m" using marker_at_sign(2) [OF m] .
  from fit L have k: "k < length s" by arith
  show other: "\<not> occursAt m' s k" if "m' = markerBrowser \<or> m' = markerCommonJS" "m' \<noteq> m" for m'
    using that m occ not_both_markers [of s k] by auto
  have inside: False
    if "m' = markerBrowser \<or> m' = markerCommonJS" "occursAt m' s i" "k < i" "i < k + length m"
    for m' i
    using no_marker_inside [OF m that(1) occ that(2,3,4)] .
  show "\<forall>m' i. (m' = markerBrowser \<or> m' = markerCommonJS) \<and> occursAt m' s i
            \<and> i < k + length m \<longrightarrow> i + length m' \<le> k + length m"
  proof (intro allI impI, elim conjE)
    fix m' i
    assume m': "m' = markerBrowser \<or> m' = markerCommonJS" and o: "occursAt m' s i"
      and i: "i < k + length m"
    consider "i < k" | "i = k" | "k < i" by linarith
    then show "i + length m' \<le> k + length m"
    proof cases
      case 1
      with clean m' o have "i + length m' \<le> k" by blast
      then show ?thesis by simp
    next
      case 2
      with o other [OF m'] have "m' = m" by auto
      with 2 show ?thesis by simp
    next
      case 3
      with inside [OF m' o] i show ?thesis by simp
    qed
  qed
  have "\<forall>j. k \<le> j \<and> j < k + length m \<longrightarrow> \<not> \<not> coveredBy [markerBrowser, markerCommonJS] s j"
    using occ k m by (auto simp: coveredBy_def covered_def occurrences_mem)
  then show "filter (\<lambda>j. \<not> coveredBy [markerBrowser, markerCommonJS] s j) [k..<length s]
           = filter (\<lambda>j. \<not> coveredBy [markerBrowser, markerCommonJS] s j) [k + length m..<length s]"
    using fit by (intro filter_upt_skip) simp_all
  show "filter (occursAt m' s) [Suc k..<length s] = filter (occursAt m' s) [k + length m..<length s]"
    if m': "m' = markerBrowser \<or> m' = markerCommonJS" for m'
  proof (rule filter_upt_skip)
    from L show "Suc k \<le> k + length m" by arith
    from fit show "k + length m \<le> length s" .
    show "\<forall>j. Suc k \<le> j \<and> j < k + length m \<longrightarrow> \<not> occursAt m' s j"
    proof (intro allI impI notI, elim conjE)
      fix j assume "Suc k \<le> j" "j < k + length m" "occursAt m' s j"
      then show False using inside [OF m', of j] by simp
    qed
  qed
qed

lemma replaceAll_both_from:
  assumes settled: "atSignsSettled s"
  shows "k \<le> length s \<Longrightarrow>
     (\<forall>m' i. (m' = markerBrowser \<or> m' = markerCommonJS) \<and> occursAt m' s i \<and> i < k
                  \<longrightarrow> i + length m' \<le> k) \<Longrightarrow>
     replaceAll markerCommonJS (replaceAll markerBrowser (drop k s))
       = map (\<lambda>j. s ! j)
           (filter (\<lambda>j. \<not> coveredBy [markerBrowser, markerCommonJS] s j) [k..<length s])
     \<and> length (replaceAll markerCommonJS (replaceAll markerBrowser (drop k s)))
         + length markerBrowser * length (filter (occursAt markerBrowser s) [k..<length s])
         + length markerCommonJS * length (filter (occursAt markerCommonJS s) [k..<length s])
         = length s - k"
proof (induction "length s - k" arbitrary: k rule: less_induct)
  case less
  let ?n = "length s"
  let ?B = markerBrowser and ?C = markerCommonJS
  let ?out = "\<lambda>k. replaceAll ?C (replaceAll ?B (drop k s))"
  let ?keep = "\<lambda>k. filter (\<lambda>j. \<not> coveredBy [?B, ?C] s j) [k..<?n]"
  let ?nB = "\<lambda>k. length (filter (occursAt ?B s) [k..<?n])"
  let ?nC = "\<lambda>k. length (filter (occursAt ?C s) [k..<?n])"
  have ne: "?B \<noteq> []" "?C \<noteq> []"
    by (simp_all add: markerBrowser_def markerCommonJS_def)
  show ?case
  proof (cases "k = ?n")
    case True
    then show ?thesis by simp
  next
    case False
    with less.prems(1) have k: "k < ?n" by simp
    have dk: "drop k s = s ! k # drop (Suc k) s"
      using k by (simp add: Cons_nth_drop_Suc)
    have upt: "[k..<?n] = k # [Suc k..<?n]"
      using k by (rule upt_conv_Cons)
    consider (B) "occursAt ?B s k" | (C) "occursAt ?C s k"
      | (none) "\<not> occursAt ?B s k" "\<not> occursAt ?C s k"
      by blast
    then show ?thesis
    proof cases
      case B
      have mB: "?B = markerBrowser \<or> ?B = markerCommonJS" by simp
      note st = marker_step [OF mB B less.prems(2)]
      have pre: "prefix ?B (drop k s)"
        using B prefix_occursAt [of k s ?B] k by simp
      have step: "?out k = ?out (k + length ?B)"
        using replaceAll_prefix [OF ne(1) pre] by (simp add: add.commute)
      from st(1,2) have "?n - (k + length ?B) < ?n - k" by arith
      from less.hyps [OF this st(1) st(3)]
      have ih1: "?out (k + length ?B) = map (\<lambda>j. s ! j) (?keep (k + length ?B))"
        and ih2: "length (?out (k + length ?B)) + length ?B * ?nB (k + length ?B)
                    + length ?C * ?nC (k + length ?B) = ?n - (k + length ?B)"
        by blast+
      have cB: "?nB k = Suc (?nB (k + length ?B))"
        unfolding upt using B st(5) [of ?B] by simp
      have "\<not> occursAt ?C s k" using st(6) [of ?C] by (simp add: markerBrowser_def markerCommonJS_def)
      then have cC: "?nC k = ?nC (k + length ?B)"
        unfolding upt using st(5) [of ?C] by simp
      have first: "?out k = map (\<lambda>j. s ! j) (?keep k)"
        unfolding step ih1 st(4) ..
      from ih2 st(1) have "length (?out (k + length ?B)) + length ?B * Suc (?nB (k + length ?B))
                    + length ?C * ?nC (k + length ?B) = ?n - k"
        by simp
      then have second: "length (?out k) + length ?B * ?nB k + length ?C * ?nC k = ?n - k"
        unfolding step cB cC .
      from first second show ?thesis ..
    next
      case C
      have mC: "?C = markerBrowser \<or> ?C = markerCommonJS" by simp
      note st = marker_step [OF mC C less.prems(2)]
      have "prefix ?C (drop k s)"
        using C prefix_occursAt [of k s ?C] k by simp
      then have "drop k s = ?C @ drop (length ?C) (drop k s)"
        by (metis append_take_drop_id prefix_def append_eq_conv_conj)
      then have dC: "drop k s = ?C @ drop (k + length ?C) s"
        by (simp add: add.commute)
      have step: "?out k = ?out (k + length ?C)"
        by (subst dC) (simp add: replaceAll_other_marker(2) replaceAll_match ne)
      from st(1,2) have "?n - (k + length ?C) < ?n - k" by arith
      from less.hyps [OF this st(1) st(3)]
      have ih1: "?out (k + length ?C) = map (\<lambda>j. s ! j) (?keep (k + length ?C))"
        and ih2: "length (?out (k + length ?C)) + length ?B * ?nB (k + length ?C)
                    + length ?C * ?nC (k + length ?C) = ?n - (k + length ?C)"
        by blast+
      have cC: "?nC k = Suc (?nC (k + length ?C))"
        unfolding upt using C st(5) [of ?C] by simp
      have "\<not> occursAt ?B s k" using st(6) [of ?B] by (simp add: markerBrowser_def markerCommonJS_def)
      then have cB: "?nB k = ?nB (k + length ?C)"
        unfolding upt using st(5) [of ?B] by simp
      have first: "?out k = map (\<lambda>j. s ! j) (?keep k)"
        unfolding step ih1 st(4) ..
      from ih2 st(1) have "length (?out (k + length ?C)) + length ?B * ?nB (k + length ?C)
                    + length ?C * Suc (?nC (k + length ?C)) = ?n - k"
        by simp
      then have second: "length (?out k) + length ?B * ?nB k + length ?C * ?nC k = ?n - k"
        unfolding step cB cC .
      from first second show ?thesis ..
    next
      case none
      have noB: "\<not> prefix ?B (s ! k # drop (Suc k) s)" and noC: "\<not> prefix ?C (s ! k # drop (Suc k) s)"
        using none prefix_occursAt [of k s ?B] prefix_occursAt [of k s ?C] k dk by simp_all
      have step: "?out k = s ! k # ?out (Suc k)"
      proof (cases "s ! k = CHR ''@''")
        case True
        have "atSignsSettled (take k s @ drop k s)" using settled by simp
        then have "atSignsSettled (drop k s)" by (rule atSignsSettled_suffix)
        with True noB noC have nx: "drop (Suc k) s = []
            \<or> (hd (drop (Suc k) s) \<noteq> CHR ''R'' \<and> hd (drop (Suc k) s) \<noteq> CHR ''@'')"
          unfolding dk by auto
        have "replaceAll ?C (replaceAll ?B (CHR ''@'' # drop (Suc k) s))
                = CHR ''@'' # replaceAll ?C (replaceAll ?B (drop (Suc k) s))"
          using noB nx True by (intro replaceAll_stray) simp_all
        with True show ?thesis unfolding dk by simp
      next
        case False
        then have "\<not> prefix ?B (s ! k # xs)" "\<not> prefix ?C (s ! k # xs)" for xs
          by (auto dest: marker_needs_at)
        then show ?thesis unfolding dk by (simp add: replaceAll_no_match del: replaceAll.simps)
      qed
      have clean: "\<forall>m' i. (m' = ?B \<or> m' = ?C) \<and> occursAt m' s i \<and> i < Suc k
                  \<longrightarrow> i + length m' \<le> Suc k"
      proof (intro allI impI, elim conjE)
        fix m' i assume m': "m' = ?B \<or> m' = ?C" and o: "occursAt m' s i" and i: "i < Suc k"
        from o m' none have "i \<noteq> k" by auto
        with i have "i < k" by simp
        with less.prems(2) m' o have "i + length m' \<le> k" by blast
        then show "i + length m' \<le> Suc k" by simp
      qed
      from k have "?n - Suc k < ?n - k" "Suc k \<le> ?n" by simp_all
      from less.hyps [OF this clean]
      have ih1: "?out (Suc k) = map (\<lambda>j. s ! j) (?keep (Suc k))"
        and ih2: "length (?out (Suc k)) + length ?B * ?nB (Suc k)
                    + length ?C * ?nC (Suc k) = ?n - Suc k"
        by blast+
      have notcov: "\<not> coveredBy [?B, ?C] s k"
      proof
        assume "coveredBy [?B, ?C] s k"
        then have "(\<exists>i. occursAt ?B s i \<and> i \<le> k \<and> k < i + length ?B)
            \<or> (\<exists>i. occursAt ?C s i \<and> i \<le> k \<and> k < i + length ?C)"
          by (auto simp: coveredBy_def covered_def occurrences_mem)
        then have "\<exists>m' i. (m' = ?B \<or> m' = ?C) \<and> occursAt m' s i \<and> i \<le> k \<and> k < i + length m'"
          by blast
        then obtain m' i where m': "m' = ?B \<or> m' = ?C" and o: "occursAt m' s i"
          and i: "i \<le> k" "k < i + length m'"
          by blast
        from o m' none have "i \<noteq> k" by auto
        with i(1) have "i < k" by simp
        with less.prems(2) m' o i(2) show False by (metis not_le)
      qed
      have keep: "?keep k = k # ?keep (Suc k)"
        using notcov unfolding upt by simp
      have cB: "?nB k = ?nB (Suc k)" and cC: "?nC k = ?nC (Suc k)"
        using none unfolding upt by simp_all
      have first: "?out k = map (\<lambda>j. s ! j) (?keep k)"
        unfolding step ih1 keep by simp
      from ih2 k have "Suc (length (?out (Suc k))) + length ?B * ?nB (Suc k)
                    + length ?C * ?nC (Suc k) = ?n - k"
        by simp
      then have second: "length (?out k) + length ?B * ?nB k + length ?C * ?nC k = ?n - k"
        unfolding step cB cC by simp
      from first second show ?thesis ..
    qed
  qed
qed

lemma commonjs_cuts_occurrences:
  assumes "atSignsSettled s"
  shows "removeMarkers commonjsReplacements s = withoutOccurrencesOf commonjsReplacements s"
    and "length (removeMarkers commonjsReplacements s)
           + length (occurrences markerBrowser s) * length markerBrowser
           + length (occurrences markerCommonJS s) * length markerCommonJS = length s"
proof -
  have start: "0 \<le> length s"
    "\<forall>m' i. (m' = markerBrowser \<or> m' = markerCommonJS) \<and> occursAt m' s i \<and> i < 0
                  \<longrightarrow> i + length m' \<le> 0"
    by simp_all
  note r = replaceAll_both_from [OF assms start]
  have rm: "removeMarkers commonjsReplacements s
              = replaceAll markerCommonJS (replaceAll markerBrowser s)"
    by (simp add: removeMarkers_def replacements_markers removeMarker_replaceAll)
  from r [THEN conjunct1]
  show "removeMarkers commonjsReplacements s = withoutOccurrencesOf commonjsReplacements s"
    unfolding rm by (simp add: withoutOccurrencesOf_def replacements_markers)
  from r [THEN conjunct2]
  show "length (removeMarkers commonjsReplacements s)
           + length (occurrences markerBrowser s) * length markerBrowser
           + length (occurrences markerCommonJS s) * length markerCommonJS = length s"
    unfolding rm by (simp add: occurrences_def mult.commute)
qed

lemma removeMarkers_rounds:
  "list_all unbordered ms \<Longrightarrow>
     removeMarkers ms s = foldl (\<lambda>b m. withoutOccurrences m b) s ms"
  by (induction ms arbitrary: s)
    (simp_all add: removeMarkers_def removeMarker_replaceAll replaceAll_cuts_occurrences(1)
      unbordered_disjoint)

lemma buildAndClean_written:
  assumes "buildAndClean target parts replacements fs = (fs', out, Inr v)"
  shows "fs' target = Some (File (removeMarkers replacements (concatenated fs parts)))"
proof -
  from buildAndClean_result [OF assms]
  have "buildAndClean target parts replacements fs =
           (fs(target \<mapsto> File (removeMarkers replacements
                 (concat (map (\<lambda>p. the (resolve fs p) @ newline) parts)))), [], Inr Undefined)"
    by (intro buildAndClean_ok) simp_all
  with assms show ?thesis by (auto simp: concatenated_def)
qed

lemma literal_plan_run:
  assumes "\<forall>p \<in> set parts. \<not> truthy (path p)"
  shows "buildAndClean ''out.js'' parts replacements fs0 =
           (fst (buildAndClean ''out.js'' parts replacements fs0), [], Inr Undefined)"
proof -
  from assms have "\<forall>p \<in> set parts. resolve fs0 p \<noteq> None"
    by (auto simp: resolve_def truthy_def split: option.splits)
  then have "buildAndClean ''out.js'' parts replacements fs0 =
           (fs0(''out.js'' \<mapsto> File (removeMarkers replacements
                 (concat (map (\<lambda>p. the (resolve fs0 p) @ newline) parts)))), [], Inr Undefined)"
    by (rule buildAndClean_ok) (simp_all add: fs0_def parentIsDir_def dirname_def)
  then show ?thesis by simp
qed

text \<open>
  C2, as the code has it. Let a call of the assembler complete, for any plan, any marker
  list and any texts of the input files; the destination then holds the concatenated
  buffer of the plan after the removal rounds. When no marker of the list occurs in the
  buffer, the destination holds the buffer unchanged. For a single marker whose
  occurrences in the buffer are disjoint (as they are in every buffer for an unbordered
  marker), and so for the browser marker in every plan of the browser target, the
  destination holds the buffer with exactly the occurrences cut out: with \<open>N\<close>
  occurrences it is \<open>N\<close> times the length of the marker shorter than the buffer, mid-line
  occurrences included, and every character outside an occurrence (a partial match, a
  prefix or a suffix of the marker) is kept in place. For the two markers of the CommonJS
  target the same holds of the occurrences of both, in every buffer in which each \<^verbatim>\<open>@\<close>
  begins a marker, ends the buffer, or stands before a character other than \<^verbatim>\<open>R\<close> and
  \<^verbatim>\<open>@\<close>. For any list of unbordered markers, each round cuts out exactly the occurrences
  of its marker in the buffer that the round before has left.
\<close>

theorem marker_removal_in_assembly_plan:
  assumes "buildAndClean target parts replacements fs = (fs', out, Inr v)"
  shows "fs' target = Some (File (removeMarkers replacements (concatenated fs parts)))
   \<and> (list_all (\<lambda>m. occurrences m (concatenated fs parts) = []) replacements \<longrightarrow>
        fs' target = Some (File (concatenated fs parts)))
   \<and> (replacements = [m] \<and> (unbordered m \<or> disjointOccurrences m (concatenated fs parts)) \<longrightarrow>
        fs' target = Some (File (withoutOccurrences m (concatenated fs parts)))
        \<and> length (fileText (fs' target)) + length (occurrences m (concatenated fs parts)) * length m
            = length (concatenated fs parts))
   \<and> (replacements = browserReplacements \<longrightarrow>
        fs' target = Some (File (withoutOccurrences markerBrowser (concatenated fs parts)))
        \<and> length (fileText (fs' target))
            + length (occurrences markerBrowser (concatenated fs parts)) * length markerBrowser
            = length (concatenated fs parts))
   \<and> (replacements = commonjsReplacements \<and> atSignsSettled (concatenated fs parts) \<longrightarrow>
        fs' target = Some (File (withoutOccurrencesOf commonjsReplacements (concatenated fs parts)))
        \<and> length (fileText (fs' target))
            + length (occurrences markerBrowser (concatenated fs parts)) * length markerBrowser
            + length (occurrences markerCommonJS (concatenated fs parts)) * length markerCommonJS
            = length (concatenated fs parts))
   \<and> (list_all unbordered replacements \<longrightarrow>
        fs' target = Some (File (foldl (\<lambda>b m. withoutOccurrences m b) (concatenated fs parts)
                                   replacements)))"
proof -
  define B where "B = concatenated fs parts"
  define R where "R = removeMarkers replacements B"
  have w: "fs' target = Some (File R)"
    using buildAndClean_written [OF assms] by (simp add: R_def B_def)
  then have t: "fileText (fs' target) = R" by (simp add: fileText_def)
  have none: "R = B" if "list_all (\<lambda>m. occurrences m B = []) replacements"
    unfolding R_def using that by (rule removeMarkers_none)
  have single: "R = withoutOccurrences m' B
                \<and> length R + length (occurrences m' B) * length m' = length B"
    if "replacements = [m']" "unbordered m' \<or> disjointOccurrences m' B" for m'
  proof -
    from that(2) have d: "disjointOccurrences m' B" using unbordered_disjoint [of m' B] by blast
    have "R = replaceAll m' B"
      by (simp add: R_def that(1) removeMarkers_def removeMarker_replaceAll)
    with replaceAll_cuts_occurrences [OF d] show ?thesis by simp
  qed
  have browser: "R = withoutOccurrences markerBrowser B
                \<and> length R + length (occurrences markerBrowser B) * length markerBrowser = length B"
    if "replacements = browserReplacements"
  proof -
    from that have "replacements = [markerBrowser]" by (simp add: replacements_markers)
    moreover have "unbordered markerBrowser \<or> disjointOccurrences markerBrowser B"
      using build_markers_unbordered by blast
    ultimately show ?thesis by (rule single)
  qed
  have commonjs: "R = withoutOccurrencesOf commonjsReplacements B
                \<and> length R + length (occurrences markerBrowser B) * length markerBrowser
                    + length (occurrences markerCommonJS B) * length markerCommonJS = length B"
    if "replacements = commonjsReplacements" "atSignsSettled B"
    using commonjs_cuts_occurrences [OF that(2)] unfolding R_def that(1) by blast
  have rounds: "R = foldl (\<lambda>b m. withoutOccurrences m b) B replacements"
    if "list_all unbordered replacements"
    unfolding R_def using that by (rule removeMarkers_rounds)
  have c0: "fs' target = Some (File (removeMarkers replacements B))"
    using w by (simp add: R_def)
  have c1: "list_all (\<lambda>m. occurrences m B = []) replacements \<longrightarrow> fs' target = Some (File B)"
    using none w by auto
  have c2: "replacements = [m] \<and> (unbordered m \<or> disjointOccurrences m B) \<longrightarrow>
        fs' target = Some (File (withoutOccurrences m B))
        \<and> length (fileText (fs' target)) + length (occurrences m B) * length m = length B"
    using single [of m] w t by auto
  have c3: "replacements = browserReplacements \<longrightarrow>
        fs' target = Some (File (withoutOccurrences markerBrowser B))
        \<and> length (fileText (fs' target))
            + length (occurrences markerBrowser B) * length markerBrowser = length B"
    using browser w t by auto
  have c4: "replacements = commonjsReplacements \<and> atSignsSettled B \<longrightarrow>
        fs' target = Some (File (withoutOccurrencesOf commonjsReplacements B))
        \<and> length (fileText (fs' target))
            + length (occurrences markerBrowser B) * length markerBrowser
            + length (occurrences markerCommonJS B) * length markerCommonJS = length B"
    using commonjs w t by auto
  have c5: "list_all unbordered replacements \<longrightarrow>
        fs' target = Some (File (foldl (\<lambda>b m. withoutOccurrences m b) B replacements))"
    using rounds w by auto
  have "fs' target = Some (File (removeMarkers replacements B))
   \<and> (list_all (\<lambda>m. occurrences m B = []) replacements \<longrightarrow> fs' target = Some (File B))
   \<and> (replacements = [m] \<and> (unbordered m \<or> disjointOccurrences m B) \<longrightarrow>
        fs' target = Some (File (withoutOccurrences m B))
        \<and> length (fileText (fs' target)) + length (occurrences m B) * length m = length B)
   \<and> (replacements = browserReplacements \<longrightarrow>
        fs' target = Some (File (withoutOccurrences markerBrowser B))
        \<and> length (fileText (fs' target))
            + length (occurrences markerBrowser B) * length markerBrowser = length B)
   \<and> (replacements = commonjsReplacements \<and> atSignsSettled B \<longrightarrow>
        fs' target = Some (File (withoutOccurrencesOf commonjsReplacements B))
        \<and> length (fileText (fs' target))
            + length (occurrences markerBrowser B) * length markerBrowser
            + length (occurrences markerCommonJS B) * length markerCommonJS = length B)
   \<and> (list_all unbordered replacements \<longrightarrow>
        fs' target = Some (File (foldl (\<lambda>b m. withoutOccurrences m b) B replacements)))"
    by (intro conjI) (rule c0, rule c1, rule c2, rule c3, rule c4, rule c5)
  then show ?thesis unfolding B_def .
qed

theorem marker_removal_in_assembly_plan_witness:
  "length (occurrences markerBrowser (concatenated fs0 planBrowserMarked)) = 2
   \<and> fst (buildAndClean ''out.js'' planBrowserMarked browserReplacements fs0) ''out.js''
       = Some (File (''x = 1; //'' @ newline @ ''@REMOVE_LINE_FOR_y'' @ newline))
   \<and> withoutOccurrences markerBrowser (concatenated fs0 planBrowserMarked)
       = ''x = 1; //'' @ newline @ ''@REMOVE_LINE_FOR_y'' @ newline
   \<and> length (''x = 1; //'' @ newline @ ''@REMOVE_LINE_FOR_y'' @ newline) + 2 * length markerBrowser
       = length (concatenated fs0 planBrowserMarked)
   \<and> atSignsSettled (concatenated fs0 planBothMarked)
   \<and> fst (buildAndClean ''out.js'' planBothMarked commonjsReplacements fs0) ''out.js''
       = Some (File (''a = 1; //'' @ newline @ ''b = 2; //'' @ newline
                     @ ''REMOVE_LINE_FOR_COMMONJS // @param c'' @ newline))
   \<and> withoutOccurrencesOf commonjsReplacements (concatenated fs0 planBothMarked)
       = ''a = 1; //'' @ newline @ ''b = 2; //'' @ newline
         @ ''REMOVE_LINE_FOR_COMMONJS // @param c'' @ newline
   \<and> list_all (\<lambda>m. occurrences m (concatenated fs0 planPartial) = []) commonjsReplacements
   \<and> fst (buildAndClean ''out.js'' planPartial commonjsReplacements fs0) ''out.js''
       = Some (File (''a @REMOVE_LINE_FOR_ b'' @ newline @ ''REMOVE_LINE_FOR_BROWSER'' @ newline))"
proof -
  have n1: "length (occurrences markerBrowser (concatenated fs0 planBrowserMarked)) = 2"
    by code_simp
  have r1: "removeMarkers browserReplacements (concatenated fs0 planBrowserMarked)
              = ''x = 1; //'' @ newline @ ''@REMOVE_LINE_FOR_y'' @ newline"
    by code_simp
  have s2: "atSignsSettled (concatenated fs0 planBothMarked)"
    by code_simp
  have r2: "removeMarkers commonjsReplacements (concatenated fs0 planBothMarked)
              = ''a = 1; //'' @ newline @ ''b = 2; //'' @ newline
                @ ''REMOVE_LINE_FOR_COMMONJS // @param c'' @ newline"
    by code_simp
  have z3: "list_all (\<lambda>m. occurrences m (concatenated fs0 planPartial) = []) commonjsReplacements"
    by code_simp
  have v3: "concatenated fs0 planPartial
              = ''a @REMOVE_LINE_FOR_ b'' @ newline @ ''REMOVE_LINE_FOR_BROWSER'' @ newline"
    by code_simp
  have run1: "buildAndClean ''out.js'' planBrowserMarked browserReplacements fs0 =
      (fst (buildAndClean ''out.js'' planBrowserMarked browserReplacements fs0), [], Inr Undefined)"
    by (rule literal_plan_run) (simp add: planBrowserMarked_def contentPart_def truthy_def)
  have run2: "buildAndClean ''out.js'' planBothMarked commonjsReplacements fs0 =
      (fst (buildAndClean ''out.js'' planBothMarked commonjsReplacements fs0), [], Inr Undefined)"
    by (rule literal_plan_run) (simp add: planBothMarked_def contentPart_def truthy_def)
  have run3: "buildAndClean ''out.js'' planPartial commonjsReplacements fs0 =
      (fst (buildAndClean ''out.js'' planPartial commonjsReplacements fs0), [], Inr Undefined)"
    by (rule literal_plan_run) (simp add: planPartial_def contentPart_def truthy_def)
  note p1 = marker_removal_in_assembly_plan [OF run1, of "[]"]
  note p2 = marker_removal_in_assembly_plan [OF run2, of "[]"]
  note p3 = marker_removal_in_assembly_plan [OF run3, of "[]"]
  from p1 have "fst (buildAndClean ''out.js'' planBrowserMarked browserReplacements fs0) ''out.js''
       = Some (File (removeMarkers browserReplacements (concatenated fs0 planBrowserMarked)))"
    by (rule conjunct1)
  then have a: "fst (buildAndClean ''out.js'' planBrowserMarked browserReplacements fs0) ''out.js''
       = Some (File (''x = 1; //'' @ newline @ ''@REMOVE_LINE_FOR_y'' @ newline))"
    unfolding r1 .
  from p1 have cut1:
    "fst (buildAndClean ''out.js'' planBrowserMarked browserReplacements fs0) ''out.js''
       = Some (File (withoutOccurrences markerBrowser (concatenated fs0 planBrowserMarked)))
     \<and> length (fileText (fst (buildAndClean ''out.js'' planBrowserMarked browserReplacements fs0)
                  ''out.js''))
         + length (occurrences markerBrowser (concatenated fs0 planBrowserMarked))
           * length markerBrowser
         = length (concatenated fs0 planBrowserMarked)"
    by blast
  from cut1 [THEN conjunct1] have a': "withoutOccurrences markerBrowser (concatenated fs0 planBrowserMarked)
       = ''x = 1; //'' @ newline @ ''@REMOVE_LINE_FOR_y'' @ newline"
    unfolding a by simp
  have ft: "fileText (Some (File u)) = u" for u by (simp add: fileText_def)
  from cut1 [THEN conjunct2]
  have a'': "length (''x = 1; //'' @ newline @ ''@REMOVE_LINE_FOR_y'' @ newline)
               + 2 * length markerBrowser = length (concatenated fs0 planBrowserMarked)"
    unfolding a ft n1 .
  from p2 have "fst (buildAndClean ''out.js'' planBothMarked commonjsReplacements fs0) ''out.js''
       = Some (File (removeMarkers commonjsReplacements (concatenated fs0 planBothMarked)))"
    by (rule conjunct1)
  then have b: "fst (buildAndClean ''out.js'' planBothMarked commonjsReplacements fs0) ''out.js''
       = Some (File (''a = 1; //'' @ newline @ ''b = 2; //'' @ newline
                     @ ''REMOVE_LINE_FOR_COMMONJS // @param c'' @ newline))"
    unfolding r2 .
  from p2 s2
  have "fst (buildAndClean ''out.js'' planBothMarked commonjsReplacements fs0) ''out.js''
       = Some (File (withoutOccurrencesOf commonjsReplacements (concatenated fs0 planBothMarked)))"
    by blast
  then have b': "withoutOccurrencesOf commonjsReplacements (concatenated fs0 planBothMarked)
       = ''a = 1; //'' @ newline @ ''b = 2; //'' @ newline
         @ ''REMOVE_LINE_FOR_COMMONJS // @param c'' @ newline"
    unfolding b by simp
  from p3 z3
  have "fst (buildAndClean ''out.js'' planPartial commonjsReplacements fs0) ''out.js''
       = Some (File (concatenated fs0 planPartial))"
    by blast
  then have c: "fst (buildAndClean ''out.js'' planPartial commonjsReplacements fs0) ''out.js''
       = Some (File (''a @REMOVE_LINE_FOR_ b'' @ newline @ ''REMOVE_LINE_FOR_BROWSER'' @ newline))"
    unfolding v3 .
  show ?thesis
    by (intro conjI) (rule n1, rule a, rule a', rule a'', rule s2, rule b, rule b', rule z3, rule c)
qed

text \<open>
  C2 as stated fails, for a marker that overlaps itself and for the markers of the
  CommonJS target. In the plan with the single text \<^verbatim>\<open>aaa\<close> the marker \<^verbatim>\<open>aa\<close> occurs twice
  in the buffer (at the indices 0 and 1); the assembler deletes one occurrence and writes
  \<^verbatim>\<open>a\<close> and the newline, while the buffer without the two occurrences is the newline
  alone. In the plan with the single text
  \<^verbatim>\<open>@REMOVE_LINE_FOR_@REMOVE_LINE_FOR_BROWSERCOMMONJS\<close> the CommonJS marker does not occur
  in the buffer and the browser marker occurs once, at the index 17; the assembler writes
  the newline alone, so it has deleted the 25 characters outside every occurrence that the
  buffer without the occurrences keeps.
\<close>

theorem marker_removal_plan_counterexample:
  "occurrences ''aa'' (concatenated fs0 planOverlap) = [0, 1]
   \<and> fst (buildAndClean ''out.js'' planOverlap [''aa''] fs0) ''out.js'' = Some (File (''a'' @ newline))
   \<and> withoutOccurrences ''aa'' (concatenated fs0 planOverlap) = newline
   \<and> occurrences markerCommonJS (concatenated fs0 planSpliced) = []
   \<and> occurrences markerBrowser (concatenated fs0 planSpliced) = [17]
   \<and> fst (buildAndClean ''out.js'' planSpliced commonjsReplacements fs0) ''out.js''
       = Some (File newline)
   \<and> withoutOccurrencesOf commonjsReplacements (concatenated fs0 planSpliced)
       = ''@REMOVE_LINE_FOR_COMMONJS'' @ newline"
proof -
  have a: "occurrences ''aa'' (concatenated fs0 planOverlap) = [0, 1]"
    by code_simp
  have b: "fst (buildAndClean ''out.js'' planOverlap [''aa''] fs0) ''out.js''
             = Some (File (''a'' @ newline))"
    by code_simp
  have c: "withoutOccurrences ''aa'' (concatenated fs0 planOverlap) = newline"
    by code_simp
  have d: "occurrences markerCommonJS (concatenated fs0 planSpliced) = []"
    by code_simp
  have e: "occurrences markerBrowser (concatenated fs0 planSpliced) = [17]"
    by code_simp
  have f: "fst (buildAndClean ''out.js'' planSpliced commonjsReplacements fs0) ''out.js''
             = Some (File newline)"
    by code_simp
  have g: "withoutOccurrencesOf commonjsReplacements (concatenated fs0 planSpliced)
             = ''@REMOVE_LINE_FOR_COMMONJS'' @ newline"
    by code_simp
  show ?thesis
    by (intro conjI) (rule a, rule b, rule c, rule d, rule e, rule f, rule g)
qed

subsection \<open>The wrapped test scripts\<close>

lemma forEachT_seqT: "forEachT xs f = seqT (map f xs)"
  by (induction xs) simp_all

lemma bindT_ok:
  assumes "bindT m f fs = (fs', out, Inr v)"
  shows "\<exists>fs1 o1 x o2. m fs = (fs1, o1, Inr x) \<and> f x fs1 = (fs', o2, Inr v)"
  using assms by (auto simp: bindT_def split: prod.splits sum.splits)

lemma seqT_split_ok:
  assumes "seqT (xs @ t # ys) fs = (fs', out, Inr ())"
  shows "\<exists>fs1 o1 fs2 o2 o3. seqT xs fs = (fs1, o1, Inr ()) \<and> t fs1 = (fs2, o2, Inr ())
           \<and> seqT ys fs2 = (fs', o3, Inr ())"
proof -
  from assms have "bindT (seqT xs) (\<lambda>_. bindT t (\<lambda>_. seqT ys)) fs = (fs', out, Inr ())"
    by (simp add: seqT_append)
  from bindT_ok [OF this] obtain fs1 o1 o2 where
    a: "seqT xs fs = (fs1, o1, Inr ())" and "bindT t (\<lambda>_. seqT ys) fs1 = (fs', o2, Inr ())"
    by auto
  from bindT_ok [OF this(2)] a show ?thesis by auto
qed

lemma keepsAt_rmSync:
  "T \<noteq> d \<Longrightarrow> \<not> prefix (d @ ''/'') T \<Longrightarrow>
     keeps (\<lambda>fs. fs T = c) (bindT (existsSync d) (\<lambda>found. whenT found (rmSync d)))"
  by (simp add: keeps_def bindT_def existsSync_def whenT_def rmSync_def returnT_def)

lemma keepsAt_mkdirSyncRecursive:
  "T \<notin> set (ancestors d) \<Longrightarrow> keeps (\<lambda>fs. fs T = c) (mkdirSyncRecursive d)"
  by (simp add: keeps_def mkdirSyncRecursive_def fsError_def)

lemma keepsAt_copyFileSync:
  "T \<noteq> dest \<Longrightarrow> keeps (\<lambda>fs. fs T = c) (copyFileSync src dest)"
  by (simp add: keeps_def copyFileSync_def fsError_def split: option.splits node.splits)

lemma keepsAt_buildAndClean:
  assumes "T \<noteq> target"
  shows "keeps (\<lambda>fs. fs T = c) (ignoreT (buildAndClean target parts replacements))"
  unfolding keeps_def
proof (intro allI impI)
  fix fs :: fsys assume I: "fs T = c"
  from buildAndClean_cases [of target parts replacements fs]
  show "fst (ignoreT (buildAndClean target parts replacements) fs) T = c
        \<and> (\<forall>n. snd (snd (ignoreT (buildAndClean target parts replacements) fs)) \<noteq> Inl (Exit n))"
    using I assms by (auto simp: ignoreT_def bindT_def returnT_def)
qed

lemma keepsAt_minifyBundle:
  assumes "T \<noteq> join browserDir ''nodeunit.min.js''"
  shows "keeps (\<lambda>fs. fs T = c) (minifyBundle env)"
  unfolding keeps_def
proof (intro allI impI)
  fix fs :: fsys assume I: "fs T = c"
  from minifyBundle_cases [of env fs]
  show "fst (minifyBundle env fs) T = c \<and> (\<forall>n. snd (snd (minifyBundle env fs)) \<noteq> Inl (Exit n))"
    using I assms by auto
qed

lemma runProcess_zero:
  assumes "runProcess t fs = (fs', out, 0)" "\<forall>n. snd (snd (t fs)) \<noteq> Inl (Exit n)"
  shows "t fs = (fs', out, Inr ())"
  using assms by (auto simp: runProcess_def split: prod.splits sum.splits exn.splits)



lemma test_script_names:
  assumes "X \<in> set [''test-base'', ''test-runmodule'', ''test-runtest'', ''test-testcase'',
                      ''test-testcase-legacy'']"
  shows "X @ ''.js'' \<in> set testScripts"
    and "testParts (X @ ''.js'') =
           [contentPart ''(function (exports) {'',
            filePart (''test/'' @ X @ ''.js''),
            contentPart (''})(this.'' @ underscored X @ '' = {});'')]"
  using assms
  by (auto simp: testScripts_def testParts_def Let_def basename_def suffix_def)

lemma wrapped_test_script:
  assumes run: "runBrowser env fs = (fs', out, Inr ())"
    and X: "X \<in> set [''test-base'', ''test-runmodule'', ''test-runtest'', ''test-testcase'',
                      ''test-testcase-legacy'']"
  shows "isFile (fs (''test/'' @ X @ ''.js''))
         \<and> fs' (''dist/browser/test/'' @ X @ ''.js'') =
             Some (File (removeMarkers [''@REMOVE_LINE_FOR_BROWSER'']
               (''(function (exports) {'' @ newline @ fileText (fs (''test/'' @ X @ ''.js''))
                @ newline @ ''})(this.'' @ underscored X @ '' = {});'' @ newline)))"
proof -
  define n where "n = X @ ''.js''"
  define x where "x = ''test/'' @ n"
  define T where "T = join testDir n"
  define f where "f = (\<lambda>script.
        ignoreT (buildAndClean (join testDir script) (testParts script) browserReplacements))"
  define A where "A = browserBundleSteps @ [minifyBundle env, mkdirSyncRecursive testDir,
      copyFileSync ''test/test.html'' (join testDir ''test.html'')]"
  define B where "B =
     [copyFileSync browserTarget (join testDir ''nodeunit.js''),
      copyFileSync (join browserDir ''nodeunit.css'') (join testDir ''nodeunit.css''),
      console_log (check_mark @ '' Browser build complete.'')]"
  have n: "n \<in> set testScripts"
    and plan: "testParts n =
           [contentPart ''(function (exports) {'',
            filePart x,
            contentPart (''})(this.'' @ underscored X @ '' = {});'')]"
    using test_script_names [OF X] by (simp_all add: n_def x_def)
  have Tval: "T = ''dist/browser/test/'' @ n"
    by (simp add: T_def join_def testDir_def browserDir_def BUILDDIR_def)
  have xval: "x = ''test/'' @ n" by (simp add: x_def)
  have "distinct testScripts" by (simp add: testScripts_def)
  with n obtain pre post where sp: "testScripts = pre @ n # post"
    and npre: "n \<notin> set pre" and npost: "n \<notin> set post"
    by (metis distinct_append distinct.simps(2) in_set_conv_decomp not_distinct_conv_prefix)
  have shape: "runBrowser env = seqT (A @ seqT (map f pre @ f n # map f post) # B)"
    by (simp add: runBrowser_def browserTestSteps_def A_def B_def f_def forEachT_seqT sp)
  from seqT_split_ok [OF run [unfolded shape]] obtain fs1 o1 fs2 o2 o3 where
    A: "seqT A fs = (fs1, o1, Inr ())"
    and F: "seqT (map f pre @ f n # map f post) fs1 = (fs2, o2, Inr ())"
    and B: "seqT B fs2 = (fs', o3, Inr ())"
    by blast
  from seqT_split_ok [OF F] obtain fsa oa fsb ob oc where
    P: "seqT (map f pre) fs1 = (fsa, oa, Inr ())"
    and N: "f n fsa = (fsb, ob, Inr ())"
    and Q: "seqT (map f post) fsb = (fs2, oc, Inr ())"
    by blast
  have kx_A: "keeps (\<lambda>fs'. fs' x = fs x) (seqT A)"
  proof (rule keeps_seqT)
    have "x \<notin> set (ancestors browserDir)" "x \<notin> set (ancestors testDir)"
      by (simp_all add: ancestors_browserDir ancestors_testDir xval)
    then show "\<forall>s \<in> set A. keeps (\<lambda>fs'. fs' x = fs x) s"
      unfolding A_def browserBundleSteps_def
      by (simp add: keeps_console_log keepsAt_rmSync keepsAt_mkdirSyncRecursive
          keepsAt_copyFileSync keepsAt_buildAndClean keepsAt_minifyBundle xval
          browserTarget_def browserDir_def testDir_def join_def BUILDDIR_def)
  qed
  have kx_pre: "keeps (\<lambda>fs'. fs' x = fs x) (seqT (map f pre))"
    by (rule keeps_seqT)
      (auto simp: f_def xval testDir_def browserDir_def join_def BUILDDIR_def
        intro!: keepsAt_buildAndClean)
  from keeps_fst [OF kx_A, of fs] A have "fs1 x = fs x" by simp
  with keeps_fst [OF kx_pre, of fs1] P have xa: "fsa x = fs x" by simp
  from N obtain v where call: "buildAndClean T (testParts n) browserReplacements fsa = (fsb, ob, Inr v)"
    by (auto simp: f_def T_def ignoreT_def bindT_def returnT_def split: prod.splits sum.splits)
  from buildAndClean_result [OF call]
  have ok: "\<forall>p \<in> set (testParts n). resolve fsa p \<noteq> None" "fsa T \<noteq> Some Dir" "parentIsDir fsa T"
    by simp_all
  from ok(1) have "resolve fsa (filePart x) \<noteq> None" by (simp add: plan)
  then have readable: "isFile (fsa x)" and resolved: "resolve fsa (filePart x) = Some (fileText (fsa x))"
    by (auto simp: resolve_def filePart_def truthy_def isFile_def fileText_def xval
        split: option.splits node.splits)
  have content: "concat (map (\<lambda>p. the (resolve fsa p) @ newline) (testParts n)) =
      ''(function (exports) {'' @ newline @ fileText (fs x) @ newline
      @ ''})(this.'' @ underscored X @ '' = {});'' @ newline"
    using resolved xa by (simp add: plan) (simp add: resolve_def contentPart_def truthy_def)
  from buildAndClean_ok [OF ok, of browserReplacements] call content
  have written: "fsb T = Some (File (removeMarkers browserReplacements
      (''(function (exports) {'' @ newline @ fileText (fs x) @ newline
       @ ''})(this.'' @ underscored X @ '' = {});'' @ newline)))"
    by auto
  have kT_post: "keeps (\<lambda>fs'. fs' T = fsb T) (seqT (map f post))"
    by (rule keeps_seqT) (use npost in \<open>auto simp: f_def T_def join_def intro!: keepsAt_buildAndClean\<close>)
  have "n \<noteq> ''nodeunit.js''" "n \<noteq> ''nodeunit.css''"
    using n by (auto simp: testScripts_def)
  then have kT_B: "keeps (\<lambda>fs'. fs' T = fsb T) (seqT B)"
    by (intro keeps_seqT) (simp add: B_def keeps_console_log keepsAt_copyFileSync T_def join_def)
  from keeps_fst [OF kT_post, of fsb] Q have "fs2 T = fsb T" by simp
  with keeps_fst [OF kT_B, of fs2] B have "fs' T = fsb T" by simp
  with written readable xa show ?thesis
    by (simp add: Tval xval n_def browserReplacements_def)
qed

lemma runBrowser_no_exit: "snd (snd (runBrowser env fs)) \<noteq> Inl (Exit k)"
proof -
  define T where "T = ''test/test.html''"
  have "T \<notin> set (ancestors browserDir)" "T \<notin> set (ancestors testDir)"
    by (simp_all add: ancestors_browserDir ancestors_testDir T_def)
  then have "\<forall>s \<in> set (browserBundleSteps @ [minifyBundle env] @ browserTestSteps).
          keeps (\<lambda>fs'. fs' T = fs T) s"
    unfolding browserBundleSteps_def browserTestSteps_def
    by (auto simp: keeps_console_log keepsAt_rmSync keepsAt_mkdirSyncRecursive
          keepsAt_copyFileSync keepsAt_buildAndClean keepsAt_minifyBundle T_def
          browserTarget_def browserDir_def testDir_def join_def BUILDDIR_def
        intro!: keeps_forEachT keepsAt_buildAndClean)
  then have "keeps (\<lambda>fs'. fs' T = fs T) (runBrowser env)"
    unfolding runBrowser_def by (rule keeps_seqT)
  then show ?thesis by (simp add: keeps_def)
qed

text \<open>
  C6. Let the browser target run to its end (exit status 0), on any file system and with
  any shell and minifier. For each of the five test scripts \<open>X\<close> the plan of the wrapped
  script has exactly three parts: the literal opening of the wrapper, the file
  \<^verbatim>\<open>test/X.js\<close>, and the literal closing that names \<^verbatim>\<open>this.X'\<close>, where \<open>X'\<close> is \<open>X\<close> with
  every hyphen replaced by an underscore. The file \<^verbatim>\<open>test/X.js\<close> was there at the start,
  and at the end \<^verbatim>\<open>dist/browser/test/X.js\<close> holds what the assembler makes of this plan:
  the opening, the text that \<^verbatim>\<open>test/X.js\<close> had at the start, and the closing, a newline
  after each, without the browser marker. For \<^verbatim>\<open>test-runmodule.js\<close> the closing written
  is \<^verbatim>\<open>})(this.test_runmodule = {});\<close>.
\<close>

theorem test_script_artifacts:
  assumes "main env [''browser''] fs = (fs', out, 0)"
    and "X \<in> set [''test-base'', ''test-runmodule'', ''test-runtest'', ''test-testcase'',
                   ''test-testcase-legacy'']"
  shows "testParts (X @ ''.js'') =
           [contentPart ''(function (exports) {'',
            filePart (''test/'' @ X @ ''.js''),
            contentPart (''})(this.'' @ underscored X @ '' = {});'')]
         \<and> underscored X = map (\<lambda>c. if c = CHR ''-'' then CHR ''_'' else c) X
         \<and> isFile (fs (''test/'' @ X @ ''.js''))
         \<and> fs' (''dist/browser/test/'' @ X @ ''.js'') =
             Some (File (removeMarkers [''@REMOVE_LINE_FOR_BROWSER'']
               (''(function (exports) {'' @ newline @ fileText (fs (''test/'' @ X @ ''.js''))
                @ newline @ ''})(this.'' @ underscored X @ '' = {});'' @ newline)))
         \<and> fs' ''dist/browser/test/test-runmodule.js'' =
             Some (File (removeMarkers [''@REMOVE_LINE_FOR_BROWSER'']
               (''(function (exports) {'' @ newline @ fileText (fs ''test/test-runmodule.js'')
                @ newline @ ''})(this.test_runmodule = {});'' @ newline)))"
proof -
  from assms(1) have "runProcess (runBrowser env) fs = (fs', out, 0)"
    by (simp add: main_def script_browser)
  then have run: "runBrowser env fs = (fs', out, Inr ())"
    by (rule runProcess_zero) (simp add: runBrowser_no_exit)
  have "fs' (''dist/browser/test/'' @ ''test-runmodule'' @ ''.js'') =
             Some (File (removeMarkers [''@REMOVE_LINE_FOR_BROWSER'']
               (''(function (exports) {'' @ newline
                @ fileText (fs (''test/'' @ ''test-runmodule'' @ ''.js''))
                @ newline @ ''})(this.'' @ underscored ''test-runmodule'' @ '' = {});''
                @ newline)))"
    using wrapped_test_script [OF run, of "''test-runmodule''"] by simp
  then have runmodule: "fs' ''dist/browser/test/test-runmodule.js'' =
             Some (File (removeMarkers [''@REMOVE_LINE_FOR_BROWSER'']
               (''(function (exports) {'' @ newline @ fileText (fs ''test/test-runmodule.js'')
                @ newline @ ''})(this.test_runmodule = {});'' @ newline)))"
    by (simp add: underscored_def)
  from wrapped_test_script [OF run assms(2)] test_script_names(2) [OF assms(2)] runmodule
  show ?thesis by (simp add: underscored_def)
qed

theorem test_script_artifacts_witness:
  "snd (snd (main env0 [''browser''] fsSources)) = 0
   \<and> testParts ''test-runmodule.js'' =
       [contentPart ''(function (exports) {'',
        filePart ''test/test-runmodule.js'',
        contentPart ''})(this.test_runmodule = {});'']
   \<and> isFile (fsSources ''test/test-runmodule.js'')
   \<and> fst (main env0 [''browser''] fsSources) ''dist/browser/test/test-runmodule.js'' =
       Some (File (''(function (exports) {'' @ newline @ ''x'' @ newline
                   @ ''})(this.test_runmodule = {});'' @ newline))"
proof -
  have status: "snd (snd (main env0 [''browser''] fsSources)) = 0"
    by code_simp
  then have run: "main env0 [''browser''] fsSources =
      (fst (main env0 [''browser''] fsSources), fst (snd (main env0 [''browser''] fsSources)), 0)"
    by (metis prod.collapse)
  have name: "''test-runmodule'' \<in> set [''test-base'', ''test-runmodule'', ''test-runtest'',
                   ''test-testcase'', ''test-testcase-legacy'']"
    by simp
  have x: "fileText (fsSources ''test/test-runmodule.js'') = ''x''"
    by (simp add: fsSources_def fileText_def)
  have clean: "removeMarkers [''@REMOVE_LINE_FOR_BROWSER'']
      (''(function (exports) {'' @ newline @ ''x'' @ newline
       @ ''})(this.test_runmodule = {});'' @ newline)
     = ''(function (exports) {'' @ newline @ ''x'' @ newline
       @ ''})(this.test_runmodule = {});'' @ newline"
    by code_simp
  note arts = test_script_artifacts [OF run name]
  from arts have plan: "testParts (''test-runmodule'' @ ''.js'') =
       [contentPart ''(function (exports) {'',
        filePart (''test/'' @ ''test-runmodule'' @ ''.js''),
        contentPart (''})(this.'' @ underscored ''test-runmodule'' @ '' = {});'')]"
    by blast
  have u: "underscored ''test-runmodule'' = ''test_runmodule''"
    by (simp add: underscored_def)
  from plan have a: "testParts ''test-runmodule.js'' =
       [contentPart ''(function (exports) {'',
        filePart ''test/test-runmodule.js'',
        contentPart ''})(this.test_runmodule = {});'']"
    unfolding u by simp
  from arts have "isFile (fsSources (''test/'' @ ''test-runmodule'' @ ''.js''))"
    by blast
  then have b: "isFile (fsSources ''test/test-runmodule.js'')" by simp
  from arts have "fst (main env0 [''browser''] fsSources) ''dist/browser/test/test-runmodule.js'' =
             Some (File (removeMarkers [''@REMOVE_LINE_FOR_BROWSER'']
               (''(function (exports) {'' @ newline
                @ fileText (fsSources ''test/test-runmodule.js'')
                @ newline @ ''})(this.test_runmodule = {});'' @ newline)))"
    by blast
  then have c: "fst (main env0 [''browser''] fsSources) ''dist/browser/test/test-runmodule.js'' =
       Some (File (''(function (exports) {'' @ newline @ ''x'' @ newline
                   @ ''})(this.test_runmodule = {});'' @ newline))"
    unfolding x clean .
  show ?thesis
    by (intro conjI) (rule status, rule a, rule b, rule c)
qed

end
